theory Spec2Isabelle
  imports Main "HOL-Library.Word"
begin

unbundle bit_operations_syntax

section \<open>The archive unpacker of the rfx installer (installer/archive.c)\<close>

text \<open>
  Bytes and C characters are \<^typ>\<open>char\<close> (8 bits); a buffer is a \<^typ>\<open>char list\<close>. A C
  string is what a buffer holds up to its first NUL byte (\<open>cstring\<close> below), so the
  strings handed from one function to the next contain no NUL. The C type \<open>int\<close> is
  modelled by \<^typ>\<open>int\<close>: cursor positions lie inside a buffer and chunk lengths are at
  most 4096, so no computation overflows as long as sizes stay below \<open>2^31 - 4096\<close>. The
  one place where the width shows is the conversion of the four size bytes of the wire
  format: it is done on \<^typ>\<open>32 word\<close> and read back signed, as the assignment
  \<open>int len = b1|b2<<8|b3<<16|b4<<24\<close> does.
\<close>

subsection \<open>Memory reader (lines 61-106)\<close>

record memread_t =
  mr_data :: "char list"
  mr_length :: int

record reader_t =
  rd_internal :: memread_t
  rd_pos :: int

text \<open>
  \<open>memcpy(dst, &src[off], n)\<close>: the \<open>n\<close> bytes of \<open>src\<close> from offset \<open>off\<close>. A negative
  count or a range that leaves the buffer is undefined behaviour in C: \<open>None\<close>.
\<close>

definition memcpy :: "char list \<Rightarrow> int \<Rightarrow> int \<Rightarrow> char list option" where
  "memcpy src off n =
     (if 0 \<le> off \<and> 0 \<le> n \<and> off + n \<le> int (length src)
      then Some (take (nat n) (drop (nat off) src))
      else None)"

text \<open>
  \<open>reader_memread(reader, data, _len)\<close>: the result is the returned count, the bytes
  copied into the caller's buffer and the reader with its cursor advanced.
\<close>

definition reader_memread :: "reader_t \<Rightarrow> int \<Rightarrow> (int \<times> char list \<times> reader_t) option" where
  "reader_memread reader len_arg =
     (let mr = rd_internal reader;
          len = (if mr_length mr - rd_pos reader < len_arg
                 then mr_length mr - rd_pos reader else len_arg)
      in case memcpy (mr_data mr) (rd_pos reader) len of
           None \<Rightarrow> None
         | Some bytes \<Rightarrow> Some (len, bytes, reader\<lparr>rd_pos := rd_pos reader + len\<rparr>))"

definition reader_init_memreader :: "char list \<Rightarrow> int \<Rightarrow> reader_t" where
  "reader_init_memreader newdata newlength =
     \<lparr>rd_internal = \<lparr>mr_data = newdata, mr_length = newlength\<rparr>, rd_pos = 0\<rparr>"

text \<open>
  A reader as \<open>reader_init_memreader\<close> and \<open>reader_memread\<close> keep it: the cursor lies
  between 0 and the declared length, which does not exceed the buffer.
\<close>

definition reader_ok :: "reader_t \<Rightarrow> bool" where
  "reader_ok reader =
     (0 \<le> rd_pos reader \<and> rd_pos reader \<le> mr_length (rd_internal reader)
      \<and> mr_length (rd_internal reader) \<le> int (length (mr_data (rd_internal reader))))"

definition remaining_bytes :: "reader_t \<Rightarrow> int" where
  "remaining_bytes reader = mr_length (rd_internal reader) - rd_pos reader"

subsection \<open>The decompressed stream\<close>

text \<open>
  \<open>unpack_archive\<close> reads through \<open>z\<close>, the inflate or LZMA reader. zlib and the LZMA
  decoder are libraries outside this file, so \<open>z\<close> is modelled by what it delivers: the
  decompressed bytes not yet handed out. \<open>z->read(z, buf, n)\<close> hands out the next \<open>n\<close>
  of them, or all that are left when fewer remain (\<open>reader_zlibinflate\<close> returns the
  count produced up to \<open>Z_STREAM_END\<close> and 0 from then on; \<open>reader_lzma_read\<close> caps the
  request by \<open>available\<close>). Every call in this file asks for a count that is not
  negative (1, 3, an \<open>unsigned char\<close>, or a chunk length between 1 and 4096).
\<close>

definition z_read :: "char list \<Rightarrow> nat \<Rightarrow> char list \<times> char list" where
  "z_read z n = (take n z, drop n z)"

subsection \<open>Filesystem and status callbacks\<close>

text \<open>
  The operating system as this file meets it: how it reads a path, the nodes on the
  disk, and the \<open>FILE\<close> streams that are open.
  \<^item> \<open>node_of path\<close> is the node a path names (\<open>None\<close> for a path that names nothing,
    like the empty one) and \<open>parent_of path\<close> the directory that has to hold this node
    (\<open>None\<close> when that is the working directory or the root, which are always there).
    Which characters separate the parts of a path, and what \<open>.\<close> and \<open>..\<close> stand for, is
    the system's business and differs between the two builds, so both are parameters.
  \<^item> \<open>files\<close> maps a node to a directory or to a file with its bytes.
  \<^item> \<open>opened\<close> holds the streams \<open>fopen\<close> has returned and \<open>fclose\<close> has not
    closed, each with the name it was opened under and the bytes \<open>fwrite\<close> has
    accepted and stdio still keeps in the stream's buffer.
  \<^item> \<open>through on_disk pending n\<close> is the buffering of stdio: when \<open>n\<close> bytes are written to
    a stream that has \<open>pending\<close> bytes in its buffer and \<open>on_disk\<close> bytes in its file, so many
    of the \<open>pending + n\<close> bytes are passed on to the file at once. It depends on the C
    library and its buffer size, so it is a parameter as well.

  \<open>stat\<close> finds a directory when the path names one. \<open>mkdir\<close> fails when the path
  names nothing, when its node exists, and when its parent is not a directory.
  \<open>fopen(path, "wb")\<close> fails when the path names nothing, when its node is a directory,
  and when its parent is not a directory; otherwise it leaves an empty file and a stream
  with an empty buffer. \<open>fwrite\<close> puts the bytes behind those pending and passes on what
  \<open>through\<close> says; \<open>fclose\<close> passes on all that is pending and forgets the stream.
  This file writes to and closes no stream but one it has just opened; on a name with no
  open stream the two leave the state as it is. Permissions, links and a full disk are
  outside the model.
\<close>

datatype node = Dir | File "char list"

record os_state =
  node_of :: "string \<Rightarrow> string option"
  parent_of :: "string \<Rightarrow> string option"
  through :: "nat \<Rightarrow> nat \<Rightarrow> nat \<Rightarrow> nat"
  files :: "string \<Rightarrow> node option"
  opened :: "(string \<times> char list) list"

definition is_directory :: "os_state \<Rightarrow> string \<Rightarrow> bool" where
  "is_directory s path =
     (case node_of s path of None \<Rightarrow> False | Some k \<Rightarrow> files s k = Some Dir)"

definition parent_present :: "os_state \<Rightarrow> string \<Rightarrow> bool" where
  "parent_present s path =
     (case parent_of s path of None \<Rightarrow> True | Some d \<Rightarrow> files s d = Some Dir)"

definition mkdir :: "os_state \<Rightarrow> string \<Rightarrow> os_state option" where
  "mkdir s path =
     (case node_of s path of
        None \<Rightarrow> None
      | Some k \<Rightarrow>
          if files s k \<noteq> None \<or> \<not> parent_present s path then None
          else Some (s\<lparr>files := (files s)(k \<mapsto> Dir)\<rparr>))"

definition fopen_wb :: "os_state \<Rightarrow> string \<Rightarrow> os_state option" where
  "fopen_wb s path =
     (case node_of s path of
        None \<Rightarrow> None
      | Some k \<Rightarrow>
          if files s k = Some Dir \<or> \<not> parent_present s path then None
          else Some (s\<lparr>files := (files s)(k \<mapsto> File []), opened := (path, []) # opened s\<rparr>))"

text \<open>The bytes that reach the file of \<open>path\<close> (the system call behind stdio).\<close>

definition os_write :: "os_state \<Rightarrow> string \<Rightarrow> char list \<Rightarrow> os_state" where
  "os_write s path bytes =
     (case node_of s path of
        None \<Rightarrow> s
      | Some k \<Rightarrow>
          (case files s k of
             Some (File old) \<Rightarrow> s\<lparr>files := (files s)(k \<mapsto> File (old @ bytes))\<rparr>
           | _ \<Rightarrow> s))"

definition file_size :: "os_state \<Rightarrow> string \<Rightarrow> nat" where
  "file_size s path =
     (case node_of s path of
        None \<Rightarrow> 0
      | Some k \<Rightarrow> (case files s k of Some (File old) \<Rightarrow> length old | _ \<Rightarrow> 0))"

text \<open>
  A stream is found by the name it was opened under, the one opened last first. It gets a
  new buffer, or is taken off the list.
\<close>

fun set_pending :: "string \<Rightarrow> char list \<Rightarrow> (string \<times> char list) list \<Rightarrow> (string \<times> char list) list" where
  "set_pending path b [] = []"
| "set_pending path b ((p, c) # streams) =
     (if p = path then (p, b) # streams else (p, c) # set_pending path b streams)"

fun close_stream :: "string \<Rightarrow> (string \<times> char list) list \<Rightarrow> (string \<times> char list) list" where
  "close_stream path [] = []"
| "close_stream path ((p, c) # streams) =
     (if p = path then streams else (p, c) # close_stream path streams)"

definition fwrite :: "os_state \<Rightarrow> string \<Rightarrow> char list \<Rightarrow> os_state" where
  "fwrite s path buf =
     (case map_of (opened s) path of
        None \<Rightarrow> s
      | Some pending \<Rightarrow>
          let q = pending @ buf;
              n = min (through s (file_size s path) (length pending) (length buf)) (length q)
          in (os_write s path (take n q))\<lparr>opened := set_pending path (drop n q) (opened s)\<rparr>)"

definition fclose :: "os_state \<Rightarrow> string \<Rightarrow> os_state" where
  "fclose s path =
     (case map_of (opened s) path of
        None \<Rightarrow> s
      | Some pending \<Rightarrow> (os_write s path pending)\<lparr>opened := close_stream path (opened s)\<rparr>)"

text \<open>
  The calls made on \<open>status_t* f\<close>, in order. Message and error texts built with
  \<open>sprintf\<close> are kept as their format's arguments.
\<close>

datatype message_text =
    Creating_installation_directory
  | Uncompressing_files
  | Entry_line string string int
  | Finishing_Installation

datatype error_text =
    Couldnt_decompress
  | Create_directory_FAILED string
  | Couldnt_create_file string
  | Couldnt_read_byte int int string
  | Unexpected_end_of_archive

datatype event =
    Error error_text
  | Message message_text
  | Status int int
  | New_file string
  | New_directory string

text \<open>
  What a function gives back: its \<open>return\<close> value, or undefined behaviour, which the
  model has for the overrun of \<open>basenamebuf\<close> in \<open>get_directory\<close>. The buffers that
  \<open>sprintf\<close> fills are not modelled, since the texts are not.
\<close>

datatype result = Return int | Undefined

subsection \<open>C strings and paths\<close>

definition cstring :: "char list \<Rightarrow> string" where
  "cstring buf = takeWhile (\<lambda>c. c \<noteq> CHR 0x00) buf"

text \<open>\<open>while(p[0]=='.' && (p[1]=='/' || p[1]=='\\')) p+=2;\<close>\<close>

fun skip_dot_slash :: "string \<Rightarrow> string" where
  "skip_dot_slash (c0 # c1 # cs) =
     (if c0 = CHR ''.'' \<and> (c1 = CHR ''/'' \<or> c1 = CHR 0x5C) then skip_dot_slash cs
      else c0 # c1 # cs)"
| "skip_dot_slash cs = cs"

text \<open>\<open>!*path || (*path=='.' && (!path[1] || path[1]=='.'))\<close>\<close>

fun nothing_to_do :: "string \<Rightarrow> bool" where
  "nothing_to_do [] = True"
| "nothing_to_do [c0] = (c0 = CHR ''.'')"
| "nothing_to_do (c0 # c1 # cs) = (c0 = CHR ''.'' \<and> c1 = CHR ''.'')"

text \<open>\<open>strrchr\<close>: the offset of the last occurrence, \<open>None\<close> for the null pointer.\<close>

primrec strrchr :: "string \<Rightarrow> char \<Rightarrow> nat option" where
  "strrchr [] c = None"
| "strrchr (x # xs) c =
     (case strrchr xs c of
        Some i \<Rightarrow> Some (Suc i)
      | None \<Rightarrow> (if x = c then Some 0 else None))"

text \<open>
  \<open>get_directory\<close> copies the part before the last separator into the static
  \<open>basenamebuf[256]\<close> and terminates it there; a longer part overruns the buffer.
\<close>

definition get_directory :: "string \<Rightarrow> string option" where
  "get_directory filename =
     (let r1 = strrchr filename (CHR 0x5C);
          r2 = strrchr filename (CHR ''/'');
          r = (case r1 of
                 None \<Rightarrow> r2
               | Some i \<Rightarrow> (case r2 of None \<Rightarrow> Some i | Some j \<Rightarrow> Some (max i j)))
      in case r of
           None \<Rightarrow> Some []
         | Some k \<Rightarrow> if k < 256 then Some (take k filename) else None)"

subsection \<open>create\_directory (lines 274-301)\<close>

text \<open>
  The path is \<open>None\<close> for a null pointer. Both builds ask whether the path is an
  existing directory (\<open>PathIsDirectoryA\<close>, or \<open>stat\<close> and \<open>S_ISDIR\<close>) before \<open>mkdir\<close>.
\<close>

definition create_directory :: "string option \<Rightarrow> os_state \<Rightarrow> int \<times> os_state \<times> event list" where
  "create_directory path_arg s =
     (case path_arg of
        None \<Rightarrow> (1, s, [])
      | Some path0 \<Rightarrow>
          if nothing_to_do path0 then (1, s, [])
          else
            let path = skip_dot_slash path0 in
            if is_directory s path then (1, s, [])
            else (case mkdir s path of
                    None \<Rightarrow> (0, s, [Error (Create_directory_FAILED path)])
                  | Some s' \<Rightarrow> (1, s', [])))"

subsection \<open>write\_file (lines 325-369)\<close>

text \<open>
  The copy loop. The first component tells whether the loop ran to its end
  (\<open>True\<close>) or left the function with \<open>return 0\<close> (\<open>False\<close>).
\<close>

function write_chunks ::
  "string \<Rightarrow> char list \<Rightarrow> int \<Rightarrow> int \<Rightarrow> os_state \<Rightarrow> bool \<times> char list \<times> os_state \<times> event list" where
  "write_chunks filename z len pos s =
     (if pos < len then
        (let l = (if pos + 4096 > len then len - pos else 4096) in
         case z_read z (nat l) of
           (buf, z') \<Rightarrow>
             let n = int (length buf) in
             if n < l then (False, z', s, [Error (Couldnt_read_byte (pos + n) n filename)])
             else write_chunks filename z' len (pos + l) (fwrite s filename buf))
      else (True, z, s, []))"
  by pat_completeness auto
termination
  by (relation "measure (\<lambda>(filename, z, len, pos, s). nat (len - pos))") auto

declare write_chunks.simps [simp del]

text \<open>
  Lines 327-336: the name \<open>write_file\<close> reports and opens. Leading pairs of a dot and a
  slash or backslash are skipped and, in every build, each \<open>/\<close> of the copy is
  overwritten with a backslash (\<open>CHR 0x5C\<close>).
\<close>

definition file_path :: "string \<Rightarrow> string" where
  "file_path filename =
     map (\<lambda>c. if c = CHR ''/'' then CHR 0x5C else c) (skip_dot_slash filename)"

definition write_file ::
  "string \<Rightarrow> char list \<Rightarrow> int \<Rightarrow> os_state \<Rightarrow> int \<times> char list \<times> os_state \<times> event list" where
  "write_file filename_arg z len s =
     (let filename = file_path filename_arg
      in case fopen_wb s filename of
           None \<Rightarrow> (0, z, s, [New_file filename, Error (Couldnt_create_file filename)])
         | Some s1 \<Rightarrow>
             (case write_chunks filename z len 0 s1 of
                (False, z', s', ev) \<Rightarrow> (0, z', s', New_file filename # ev)
              | (True, z', s', ev) \<Rightarrow> (1, z', fclose s' filename, New_file filename # ev)))"

subsection \<open>unpack\_archive (lines 371-454)\<close>

text \<open>
  What the function takes from outside this file:
  \<^item> \<open>reader_init\<close>: the construction of \<open>z\<close> from the archive (\<open>reader_init_zlibinflate\<close>
    over the memory reader, or \<open>reader_init_lzma\<close>) together with the decoder behind it:
    the decompressed bytes \<open>z\<close> will deliver, or \<open>None\<close> when no reader is returned;
  \<^item> \<open>concatPaths\<close> of utils.h;
  \<^item> \<open>indet_len\<close>, \<open>indet_mem\<close>: the contents of \<open>filename_len\<close> and of the block
    \<open>malloc\<close> returns for the name before anything is stored there. A read that delivers
    fewer bytes than asked leaves them as they are.
\<close>

record env =
  reader_init :: "char list \<Rightarrow> char list option"
  concatPaths :: "string \<Rightarrow> string \<Rightarrow> string"
  indet_len :: char
  indet_mem :: "nat \<Rightarrow> char"

text \<open>
  \<open>unsigned b=0; l+=z->read(z, &b, 1);\<close> on a little-endian machine: the count read, and
  the byte as the value of \<open>b\<close>.
\<close>

definition read_byte :: "char list \<Rightarrow> int \<times> 32 word \<times> char list" where
  "read_byte z =
     (case z_read z 1 of
        (buf, z') \<Rightarrow> (int (length buf), (case buf of [] \<Rightarrow> 0 | c # _ \<Rightarrow> of_char c), z'))"

text \<open>
  \<open>b1|b2<<8|b3<<16|b4<<24\<close> on \<open>unsigned\<close> operands; stored in an \<open>int\<close> it is read
  with \<^const>\<open>sint\<close>.
\<close>

definition size_value :: "32 word \<Rightarrow> 32 word \<Rightarrow> 32 word \<Rightarrow> 32 word \<Rightarrow> 32 word" where
  "size_value b1 b2 b3 b4 = b1 OR push_bit 8 b2 OR push_bit 16 b3 OR push_bit 24 b4"

text \<open>The four reads and their sum \<open>l\<close> (lines 389-398 and again 415-425).\<close>

definition read_size :: "char list \<Rightarrow> int \<times> 32 word \<times> char list" where
  "read_size z =
     (case read_byte z of (l1, b1, z1) \<Rightarrow>
      case read_byte z1 of (l2, b2, z2) \<Rightarrow>
      case read_byte z2 of (l3, b3, z3) \<Rightarrow>
      case read_byte z3 of (l4, b4, z4) \<Rightarrow>
        (l1 + l2 + l3 + l4, size_value b1 b2 b3 b4, z4))"

text \<open>Lines 428-432: the length byte, the name bytes and the terminator at \<open>filename_len\<close>.\<close>

definition read_filename :: "env \<Rightarrow> char list \<Rightarrow> string \<times> char list" where
  "read_filename E z =
     (case z_read z 1 of
        (lb, z1) \<Rightarrow>
          let filename_len = (case lb of [] \<Rightarrow> indet_len E | c # _ \<Rightarrow> c);
              n = (of_char filename_len :: nat)
          in case z_read z1 n of
               (got, z2) \<Rightarrow> (cstring (got @ map (indet_mem E) [length got..<n]), z2))"

text \<open>
  Lines 434-450, once size and name are read: the name is cleared of leading
  \<open>./\<close>, joined to \<open>destdir\<close>, progress and a message are reported, and the entry goes
  to \<open>create_directory\<close> or to \<open>write_file\<close>. The first component of the result is
  \<open>None\<close> when the end of the loop body is reached and the loop goes on, and the
  function's result when the body leaves the function.
\<close>

definition dispatch_entry ::
  "env \<Rightarrow> string \<Rightarrow> int \<Rightarrow> char list \<Rightarrow> string \<Rightarrow> char list \<Rightarrow> int \<Rightarrow> int \<Rightarrow> os_state
     \<Rightarrow> result option \<times> char list \<times> os_state \<times> event list" where
  "dispatch_entry E destdir num ident name z len pos s =
     (let filename = concatPaths E destdir (skip_dot_slash name);
          ev = [Status (pos + 1) num, Message (Entry_line (cstring ident) filename len)]
      in if cstring ident = ''DIR'' then
           (case create_directory (Some filename) s of
              (r, s1, e1) \<Rightarrow>
                (if r = 0 then Some (Return 0) else None, z, s1,
                 ev @ New_directory filename # e1))
         else
           (case get_directory filename of
              None \<Rightarrow> (Some Undefined, z, s, ev)
            | Some dir \<Rightarrow>
                (case create_directory (Some dir) s of
                   (r, s1, e1) \<Rightarrow>
                     if r = 0 then (Some (Return 0), z, s1, ev @ e1)
                     else (case write_file filename z len s1 of
                             (r2, z3, s2, e2) \<Rightarrow>
                               (if r2 = 0 then Some (Return 0) else None, z3, s2,
                                ev @ e1 @ e2)))))"

text \<open>The body of the loop after the tag (lines 415-450).\<close>

definition unpack_entry ::
  "env \<Rightarrow> string \<Rightarrow> int \<Rightarrow> char list \<Rightarrow> char list \<Rightarrow> int \<Rightarrow> os_state
     \<Rightarrow> result option \<times> char list \<times> os_state \<times> event list" where
  "unpack_entry E destdir num ident z pos s =
     (case read_size z of
        (l, v, z1) \<Rightarrow>
          if l < 4 then (Some (Return 0), z1, s, [])
          else
            (case read_filename E z1 of
               (name, z2) \<Rightarrow> dispatch_entry E destdir num ident name z2 (sint v) pos s))"

text \<open>
  The loop (lines 404-451); \<open>None\<close> when it is left by \<open>break\<close>. It ends because a
  tag that was read in full takes three bytes off the stream and nothing puts bytes back.
\<close>

function unpack_loop ::
  "env \<Rightarrow> string \<Rightarrow> int \<Rightarrow> char list \<Rightarrow> int \<Rightarrow> os_state \<Rightarrow> result option \<times> os_state \<times> event list" where
  "unpack_loop E destdir num z pos s =
     (case z_read z 3 of
        (ident, z1) \<Rightarrow>
          if length ident < 3 then (Some (Return 0), s, [Error Unexpected_end_of_archive])
          else if cstring ident = ''END'' then (None, s, [])
          else (case unpack_entry E destdir num ident z1 pos s of
                  (Some r, z2, s2, ev) \<Rightarrow> (Some r, s2, ev)
                | (None, z2, s2, ev) \<Rightarrow>
                    (case unpack_loop E destdir num z2 (pos + 1) s2 of
                       (r, s3, ev3) \<Rightarrow> (r, s3, ev @ ev3))))"
  by pat_completeness auto
termination
proof (relation "measure (\<lambda>(E, destdir, num, z, pos, s). length z)")
  show "wf (measure (\<lambda>(E, destdir, num, z, pos, s). length z))" by simp
next
  fix E :: env and destdir :: string and num :: int and z :: "char list" and pos :: int
    and s :: os_state and ident z1 r y z2 ya s2 ev
  assume a: "(ident, z1) = z_read z 3" "\<not> length ident < 3"
    and b: "(r, y) = unpack_entry E destdir num ident z1 pos s" "(z2, ya) = y"
  have chunks: "length (fst (snd (write_chunks fn zz ln ps st))) \<le> length zz"
    for fn zz ln ps st
  proof (induction fn zz ln ps st rule: write_chunks.induct)
    case (1 filename z len pos s)
    show ?case
    proof (cases "pos < len")
      case False
      then show ?thesis by (simp add: write_chunks.simps [of filename z len pos s])
    next
      case True
      define l where "l = (if pos + 4096 > len then len - pos else 4096)"
      have unfold: "write_chunks filename z len pos s =
          (if int (length (take (nat l) z)) < l
           then (False, drop (nat l) z, s,
                 [Error (Couldnt_read_byte (pos + int (length (take (nat l) z)))
                    (int (length (take (nat l) z))) filename)])
           else write_chunks filename (drop (nat l) z) len (pos + l)
                  (fwrite s filename (take (nat l) z)))"
        unfolding l_def using True
        by (subst write_chunks.simps) (simp only: if_True Let_def z_read_def prod.case)
      show ?thesis
      proof (cases "int (length (take (nat l) z)) < l")
        case short: True
        show ?thesis unfolding unfold if_P [OF short] by simp
      next
        case full: False
        have "length (fst (snd (write_chunks filename (drop (nat l) z) len (pos + l)
                 (fwrite s filename (take (nat l) z))))) \<le> length (drop (nat l) z)"
          using "1.IH" [of l "take (nat l) z" "drop (nat l) z"] True full
          by (simp add: l_def z_read_def)
        then show ?thesis unfolding unfold if_not_P [OF full] by simp
      qed
    qed
  qed
  have chunks2: "length z' \<le> length zz" if "write_chunks fn zz ln ps st = (b, z', s', ev)"
    for fn zz ln ps st b z' s' ev
    using chunks [of fn zz ln ps st] that by simp
  have wf: "length z' \<le> length zz" if "write_file fn zz ln st = (r, z', s', ev)"
    for fn zz ln st r z' s' ev
    using that
    by (auto simp: write_file_def Let_def split: option.splits prod.splits bool.splits
        dest: chunks2)
  have rs: "length (snd (snd (read_size zz))) \<le> length zz" for zz
    by (simp add: read_size_def read_byte_def z_read_def)
  have rf: "length (snd (read_filename E zz)) \<le> length zz" for zz
    by (simp add: read_filename_def z_read_def Let_def)
  have ue: "length z' \<le> length zz"
    if "unpack_entry E destdir num ident zz pos s = (r, z', s', ev)" for zz r z' s' ev
  proof -
    obtain l v za where A: "read_size zz = (l, v, za)" by (cases "read_size zz") auto
    obtain name zb where B: "read_filename E za = (name, zb)"
      by (cases "read_filename E za") auto
    have 1: "length za \<le> length zz" using rs [of zz] A by simp
    have 2: "length zb \<le> length za" using rf [of za] B by simp
    show ?thesis using that 1 2
      by (auto simp: unpack_entry_def dispatch_entry_def A B Let_def
          split: if_splits prod.splits option.splits dest: wf)
  qed
  have "length z1 < length z" using a by (auto simp: z_read_def)
  moreover have "length z2 \<le> length z1" using b ue [of z1 r z2 "fst ya" "snd ya"] by simp
  ultimately show "((E, destdir, num, z2, pos + 1, s2), E, destdir, num, z, pos, s)
          \<in> measure (\<lambda>(E, destdir, num, z, pos, s). length z)"
    by simp
qed

declare unpack_loop.simps [simp del]

text \<open>
  \<open>destdir\<close> is not a null pointer. Output to stdout and stderr (\<open>printf\<close>, \<open>perror\<close>)
  is left out.
\<close>

definition unpack_archive ::
  "env \<Rightarrow> char list \<Rightarrow> string \<Rightarrow> os_state \<Rightarrow> result \<times> os_state \<times> event list" where
  "unpack_archive E archive destdir s =
     (case reader_init E archive of
        None \<Rightarrow> (Return 0, s, [Error Couldnt_decompress])
      | Some z \<Rightarrow>
          (case create_directory (Some destdir) s of
             (r, s1, e1) \<Rightarrow>
               let ev0 = Message Creating_installation_directory # e1 in
               if r = 0 then (Return 0, s1, ev0)
               else
                 (case read_size z of
                    (l, v, z1) \<Rightarrow>
                      if l < 4 then (Return 0, s1, ev0)
                      else
                        let num = sint v;
                            ev1 = ev0 @ [Status 0 num, Message Uncompressing_files]
                        in (case unpack_loop E destdir num z1 0 s1 of
                              (Some res, s2, ev2) \<Rightarrow> (res, s2, ev1 @ ev2)
                            | (None, s2, ev2) \<Rightarrow>
                                (Return 1, s2, ev1 @ ev2 @ [Message Finishing_Installation])))))"

subsection \<open>The wire format, and what the status sink is told\<close>

text \<open>
  An archive as \<open>unpack_archive\<close> reads it: the four bytes of \<open>entry_count\<close>, the
  entries, and \<open>END\<close>. An entry is its three-byte tag, the four bytes of its size, one
  byte with the length of its name, the name, and the payload. A well-formed entry has a
  tag of three bytes other than \<open>END\<close>, a name shorter than 256 bytes, and a payload of
  as many bytes as the size field says when read as an \<open>int\<close>; a \<open>DIR\<close> entry has no
  payload, whatever its size field holds.
\<close>

datatype archive_entry =
  Entry (tag: string) (size_field: "32 word") (name_bytes: "char list") (payload: "char list")

definition le32 :: "32 word \<Rightarrow> char list" where
  "le32 w =
     [char_of (unat w), char_of (unat (drop_bit 8 w)), char_of (unat (drop_bit 16 w)),
      char_of (unat (drop_bit 24 w))]"

definition encode_entry :: "archive_entry \<Rightarrow> char list" where
  "encode_entry e =
     tag e @ le32 (size_field e) @ [char_of (length (name_bytes e))] @ name_bytes e @ payload e"

definition encode_archive :: "32 word \<Rightarrow> archive_entry list \<Rightarrow> char list" where
  "encode_archive entry_count es = le32 entry_count @ concat (map encode_entry es) @ ''END''"

definition entry_ok :: "archive_entry \<Rightarrow> bool" where
  "entry_ok e =
     (length (tag e) = 3 \<and> tag e \<noteq> ''END'' \<and> length (name_bytes e) < 256
      \<and> (if tag e = ''DIR'' then payload e = []
          else int (length (payload e)) = sint (size_field e)))"

text \<open>The arguments of the \<open>status\<close> calls among the events, in order.\<close>

fun status_calls :: "event list \<Rightarrow> (int \<times> int) list" where
  "status_calls [] = []"
| "status_calls (Status cur tot # evs) = (cur, tot) # status_calls evs"
| "status_calls (ev # evs) = status_calls evs"

text \<open>The number of \<open>error\<close> calls among the events.\<close>

fun error_calls :: "event list \<Rightarrow> nat" where
  "error_calls [] = 0"
| "error_calls (Error e # evs) = Suc (error_calls evs)"
| "error_calls (ev # evs) = error_calls evs"

subsection \<open>Comparing two disks\<close>

text \<open>
  For the second run of an extraction: \<open>same_os s t\<close> when two states read paths and
  buffer streams alike; \<open>grows s s'\<close> when every node of \<open>s\<close> is still there in \<open>s'\<close>, as
  a directory or as a file as before; \<open>agree t s'\<close> when two disks have directories at
  the same nodes and files at the same nodes; \<open>replays s s2 t t2\<close> when a step that led
  from \<open>s\<close> to \<open>s2\<close> leads from \<open>t\<close> to \<open>t2\<close> with the same streams open, each node either
  holding in \<open>t2\<close> what it holds in \<open>s2\<close> or left alone on both sides.
\<close>

definition node_kind :: "node option \<Rightarrow> nat" where
  "node_kind n = (case n of None \<Rightarrow> 0 | Some Dir \<Rightarrow> 1 | Some (File c) \<Rightarrow> 2)"

definition same_os :: "os_state \<Rightarrow> os_state \<Rightarrow> bool" where
  "same_os s t = (node_of t = node_of s \<and> parent_of t = parent_of s \<and> through t = through s)"

definition grows :: "os_state \<Rightarrow> os_state \<Rightarrow> bool" where
  "grows s s' =
     (same_os s s'
      \<and> (\<forall>p. files s p \<noteq> None \<longrightarrow> node_kind (files s' p) = node_kind (files s p)))"

definition agree :: "os_state \<Rightarrow> os_state \<Rightarrow> bool" where
  "agree t s' = (same_os t s' \<and> (\<forall>p. node_kind (files t p) = node_kind (files s' p)))"

definition replays :: "os_state \<Rightarrow> os_state \<Rightarrow> os_state \<Rightarrow> os_state \<Rightarrow> bool" where
  "replays s s2 t t2 =
     (same_os t t2 \<and> opened t2 = opened t
      \<and> (\<forall>p. files t2 p = files s2 p \<or> files t2 p = files t p \<and> files s2 p = files s p))"

subsection \<open>Example inputs\<close>

text \<open>
  An environment whose archive is stored uncompressed, whose \<open>concatPaths\<close> joins with
  a slash and whose fresh memory is zero, and one whose fresh memory holds old data.
\<close>

definition plain_env :: env where
  "plain_env =
     \<lparr>reader_init = Some, concatPaths = (\<lambda>base add. base @ ''/'' @ add),
      indet_len = CHR 0x00, indet_mem = (\<lambda>i. CHR 0x00)\<rparr>"

definition stale_env :: env where
  "stale_env =
     \<lparr>reader_init = Some, concatPaths = (\<lambda>base add. base @ ''/'' @ add),
      indet_len = CHR 0x03, indet_mem = (\<lambda>i. CHR ''x'')\<rparr>"

text \<open>
  An empty disk on a system where the slash separates and the backslash is a character
  like any other. The names used below have no \<open>.\<close> or \<open>..\<close> part and no doubled or
  trailing slash, so a name is its own node and its parent is what stands before its
  last slash. The streams are buffered as by a C library with a buffer of 4096 bytes that
  sends whole blocks of a first write straight to the file, then keeps what fits into
  the buffer, and on overflow sends the buffer and the whole blocks behind it.
\<close>

definition slash_node :: "string \<Rightarrow> string option" where
  "slash_node path = (if path = [] then None else Some path)"

definition slash_parent :: "string \<Rightarrow> string option" where
  "slash_parent path =
     (case strrchr path (CHR ''/'') of
        None \<Rightarrow> None
      | Some i \<Rightarrow> if i = 0 then None else Some (take i path))"

definition block_buffered :: "nat \<Rightarrow> nat \<Rightarrow> nat \<Rightarrow> nat" where
  "block_buffered on_disk pending n =
     (if on_disk = 0 \<and> pending = 0 then n - n mod 4096
      else if pending + n \<le> 4096 then 0
      else 4096 + ((pending + n - 4096) - (pending + n - 4096) mod 4096))"

definition empty_disk :: os_state where
  "empty_disk =
     \<lparr>node_of = slash_node, parent_of = slash_parent, through = block_buffered,
      files = Map.empty, opened = []\<rparr>"

definition dest_disk :: os_state where
  "dest_disk = empty_disk\<lparr>files := [''dest'' \<mapsto> Dir]\<rparr>"

text \<open>
  The archive of the specification's scenario: \<open>entry_count\<close> 1, the entry
  \<open>DIR 00 00 00 00 03 sub\<close>, and \<open>END\<close>.
\<close>

definition scenario_archive :: "char list" where
  "scenario_archive =
     [CHR 0x01, CHR 0x00, CHR 0x00, CHR 0x00] @ ''DIR'' @ [CHR 0x00, CHR 0x00, CHR 0x00, CHR 0x00]
       @ [CHR 0x03] @ ''sub'' @ ''END''"

text \<open>
  An archive with a directory and a file of five bytes, the disk it leaves behind when
  unpacked into \<open>dest\<close> on the empty disk, and the calls the sink receives.
\<close>

definition sample_archive :: "char list" where
  "sample_archive =
     encode_archive 2 [Entry ''DIR'' 0 ''sub'' [], Entry ''FIL'' 5 ''sub/a.txt'' ''hello'']"

definition sample_disk :: os_state where
  "sample_disk =
     empty_disk\<lparr>files := [''dest'' \<mapsto> Dir, ''dest/sub'' \<mapsto> Dir,
               ''dest'' @ [CHR 0x5C] @ ''sub'' @ [CHR 0x5C] @ ''a.txt'' \<mapsto> File ''hello'']\<rparr>"

definition sample_events :: "event list" where
  "sample_events =
     [Message Creating_installation_directory, Status 0 2, Message Uncompressing_files,
      Status 1 2, Message (Entry_line ''DIR'' ''dest/sub'' 0), New_directory ''dest/sub'',
      Status 2 2, Message (Entry_line ''FIL'' ''dest/sub/a.txt'' 5),
      New_file (''dest'' @ [CHR 0x5C] @ ''sub'' @ [CHR 0x5C] @ ''a.txt''),
      Message Finishing_Installation]"

section \<open>The memory reader\<close>

lemma reader_memread_eq:
  assumes "reader_ok reader" and "0 \<le> max_len"
  shows "reader_memread reader max_len =
           Some (min max_len (remaining_bytes reader),
                 take (nat (min max_len (remaining_bytes reader)))
                   (drop (nat (rd_pos reader)) (mr_data (rd_internal reader))),
                 reader\<lparr>rd_pos := rd_pos reader + min max_len (remaining_bytes reader)\<rparr>)"
proof -
  let ?n = "min max_len (remaining_bytes reader)"
  have n: "?n = (if mr_length (rd_internal reader) - rd_pos reader < max_len
                 then mr_length (rd_internal reader) - rd_pos reader else max_len)"
    by (simp add: remaining_bytes_def min_def)
  have "0 \<le> ?n" "rd_pos reader + ?n \<le> int (length (mr_data (rd_internal reader)))"
    "0 \<le> rd_pos reader"
    using assms by (auto simp: reader_ok_def remaining_bytes_def min_def)
  then show ?thesis
    unfolding reader_memread_def Let_def n [symmetric] memcpy_def by simp
qed

lemma reader_memread_keeps_ok:
  assumes "reader_ok reader" and "0 \<le> max_len"
  shows "reader_ok (reader\<lparr>rd_pos := rd_pos reader + min max_len (remaining_bytes reader)\<rparr>)"
  using assms by (auto simp: reader_ok_def remaining_bytes_def min_def)

text \<open>
  The contract the model of \<open>z\<close> assumes is the one the memory reader has: on the bytes
  between the cursor and the declared length, \<open>reader_memread\<close> computes \<open>z_read\<close>.
\<close>

lemma z_read_memread:
  assumes "reader_ok reader"
  shows "reader_memread reader (int n) =
     (case z_read (take (nat (remaining_bytes reader))
                    (drop (nat (rd_pos reader)) (mr_data (rd_internal reader)))) n of
        (buf, rest) \<Rightarrow>
          Some (int (length buf), buf, reader\<lparr>rd_pos := rd_pos reader + int (length buf)\<rparr>))"
proof -
  have "0 \<le> remaining_bytes reader"
    using assms by (simp add: reader_ok_def remaining_bytes_def)
  then show ?thesis
    using reader_memread_eq [OF assms, of "int n"] assms
    by (auto simp: z_read_def remaining_bytes_def reader_ok_def min_def take_drop)
qed

text \<open>
  C5. For a memory reader whose cursor lies inside its buffer and a requested length
  \<open>max_len\<close> that is not negative, \<open>reader_memread\<close> returns
  \<open>min max_len remaining_bytes\<close>, copies exactly that many bytes starting at the cursor,
  advances the cursor by that amount (which keeps the cursor inside the buffer, so the
  same holds for the next call), and returns 0 and leaves the reader as it is once the
  cursor has reached the end.
\<close>

theorem reader_memread_contract:
  assumes "reader_ok reader" and "0 \<le> max_len"
  shows "reader_memread reader max_len =
           Some (min max_len (remaining_bytes reader),
                 take (nat (min max_len (remaining_bytes reader)))
                   (drop (nat (rd_pos reader)) (mr_data (rd_internal reader))),
                 reader\<lparr>rd_pos := rd_pos reader + min max_len (remaining_bytes reader)\<rparr>)
         \<and> int (length (take (nat (min max_len (remaining_bytes reader)))
                   (drop (nat (rd_pos reader)) (mr_data (rd_internal reader)))))
             = min max_len (remaining_bytes reader)
         \<and> reader_ok (reader\<lparr>rd_pos := rd_pos reader + min max_len (remaining_bytes reader)\<rparr>)
         \<and> (remaining_bytes reader = 0 \<longrightarrow> reader_memread reader max_len = Some (0, [], reader))"
proof -
  let ?n = "min max_len (remaining_bytes reader)"
  have bounds: "0 \<le> ?n" "rd_pos reader + ?n \<le> int (length (mr_data (rd_internal reader)))"
    "0 \<le> rd_pos reader"
    using assms by (auto simp: reader_ok_def remaining_bytes_def min_def)
  note 1 = reader_memread_eq [OF assms]
  have 2: "int (length (take (nat ?n) (drop (nat (rd_pos reader)) (mr_data (rd_internal reader)))))
            = ?n"
    using bounds by simp
  note 3 = reader_memread_keeps_ok [OF assms]
  have 4: "remaining_bytes reader = 0 \<longrightarrow> reader_memread reader max_len = Some (0, [], reader)"
    using 1 assms(2) by (auto simp: min_def)
  from 1 2 3 4 show ?thesis by blast
qed

text \<open>
  C5, witness: a reader over the five bytes \<open>abcde\<close> with its cursor at 3, asked for 4
  bytes, and asked again at the end.
\<close>

theorem reader_memread_contract_witness:
  "reader_ok \<lparr>rd_internal = \<lparr>mr_data = ''abcde'', mr_length = 5\<rparr>, rd_pos = 3\<rparr>
   \<and> (0::int) \<le> 4
   \<and> reader_memread \<lparr>rd_internal = \<lparr>mr_data = ''abcde'', mr_length = 5\<rparr>, rd_pos = 3\<rparr> 4
       = Some (2, ''de'', \<lparr>rd_internal = \<lparr>mr_data = ''abcde'', mr_length = 5\<rparr>, rd_pos = 5\<rparr>)
   \<and> reader_memread \<lparr>rd_internal = \<lparr>mr_data = ''abcde'', mr_length = 5\<rparr>, rd_pos = 5\<rparr> 4
       = Some (0, [], \<lparr>rd_internal = \<lparr>mr_data = ''abcde'', mr_length = 5\<rparr>, rd_pos = 5\<rparr>)"
proof -
  have ok3: "reader_ok \<lparr>rd_internal = \<lparr>mr_data = ''abcde'', mr_length = 5\<rparr>, rd_pos = 3\<rparr>"
    and ok5: "reader_ok \<lparr>rd_internal = \<lparr>mr_data = ''abcde'', mr_length = 5\<rparr>, rd_pos = 5\<rparr>"
    by (simp_all add: reader_ok_def)
  have le: "(0::int) \<le> 4" by simp
  show ?thesis
    using ok3 le reader_memread_contract [OF ok3 le] reader_memread_contract [OF ok5 le]
    by (simp add: remaining_bytes_def)
qed

section \<open>write\_file\<close>

lemma fopen_wb_Some:
  assumes "node_of s path = Some k" and "files s k \<noteq> Some Dir" and "parent_present s path"
  shows "fopen_wb s path =
           Some (s\<lparr>files := (files s)(k \<mapsto> File []), opened := (path, []) # opened s\<rparr>)"
  using assms by (simp add: fopen_wb_def)

lemma fopen_wb_cases:
  "fopen_wb s path = None
   \<or> (\<exists>k. node_of s path = Some k \<and> files s k \<noteq> Some Dir \<and> parent_present s path
          \<and> fopen_wb s path =
               Some (s\<lparr>files := (files s)(k \<mapsto> File []), opened := (path, []) # opened s\<rparr>))"
  by (auto simp: fopen_wb_def split: option.splits)

text \<open>
  While \<open>write_file\<close> copies, its stream is the one opened last. Each byte handed to
  \<open>fwrite\<close> is then in the file or in the buffer, in the order written, and \<open>fclose\<close>
  leaves them all in the file.
\<close>

lemma fwrite_head:
  assumes "node_of s path = Some k"
  shows "\<exists>c' p'. fwrite (s\<lparr>files := (files s)(k \<mapsto> File c), opened := (path, p) # rest\<rparr>) path buf
            = s\<lparr>files := (files s)(k \<mapsto> File c'), opened := (path, p') # rest\<rparr>
          \<and> c' @ p' = c @ p @ buf"
proof -
  let ?st = "s\<lparr>files := (files s)(k \<mapsto> File c), opened := (path, p) # rest\<rparr>"
  define n where "n = min (through s (length c) (length p) (length buf)) (length (p @ buf))"
  have "fwrite ?st path buf
          = s\<lparr>files := (files s)(k \<mapsto> File (c @ take n (p @ buf))),
              opened := (path, drop n (p @ buf)) # rest\<rparr>"
    using assms by (simp add: fwrite_def os_write_def file_size_def Let_def n_def)
  moreover have "(c @ take n (p @ buf)) @ drop n (p @ buf) = c @ p @ buf"
    by (simp only: append_assoc append_take_drop_id)
  ultimately show ?thesis by blast
qed

lemma fclose_head:
  assumes "node_of s path = Some k"
  shows "fclose (s\<lparr>files := (files s)(k \<mapsto> File c), opened := (path, p) # rest\<rparr>) path
           = s\<lparr>files := (files s)(k \<mapsto> File (c @ p)), opened := rest\<rparr>"
  using assms by (simp add: fclose_def os_write_def)

lemma write_chunks_done:
  "\<not> pos < len \<Longrightarrow> write_chunks filename z len pos s = (True, z, s, [])"
  by (simp add: write_chunks.simps [of filename z len pos s])

lemma write_chunks_step:
  assumes "pos < len" and "l = (if pos + 4096 > len then len - pos else 4096)"
  shows "write_chunks filename z len pos s =
          (if int (length (take (nat l) z)) < l
           then (False, drop (nat l) z, s,
                 [Error (Couldnt_read_byte (pos + int (length (take (nat l) z)))
                    (int (length (take (nat l) z))) filename)])
           else write_chunks filename (drop (nat l) z) len (pos + l)
                  (fwrite s filename (take (nat l) z)))"
  unfolding assms(2) using assms(1)
  by (subst write_chunks.simps) (simp only: if_True Let_def z_read_def prod.case)

lemma write_chunks_enough:
  assumes "node_of s path = Some k" and "len - pos \<le> int (length z)"
  shows "\<exists>c' p'.
     write_chunks path z len pos (s\<lparr>files := (files s)(k \<mapsto> File c), opened := (path, p) # rest\<rparr>)
       = (True, drop (nat (len - pos)) z,
          s\<lparr>files := (files s)(k \<mapsto> File c'), opened := (path, p') # rest\<rparr>, [])
     \<and> c' @ p' = c @ p @ take (nat (len - pos)) z"
  using assms(2)
proof (induction "nat (len - pos)" arbitrary: z pos c p rule: less_induct)
  case less
  let ?st = "s\<lparr>files := (files s)(k \<mapsto> File c), opened := (path, p) # rest\<rparr>"
  show ?case
  proof (cases "pos < len")
    case False
    then have "write_chunks path z len pos ?st = (True, z, ?st, [])" by (rule write_chunks_done)
    moreover have "nat (len - pos) = 0" using False by simp
    ultimately have "write_chunks path z len pos ?st = (True, drop (nat (len - pos)) z, ?st, [])
        \<and> c @ p = c @ p @ take (nat (len - pos)) z"
      by simp
    then show ?thesis by blast
  next
    case True
    define l where "l = (if pos + 4096 > len then len - pos else 4096)"
    have l: "0 < l" "l \<le> len - pos" "l \<le> int (length z)"
      using True less.prems by (auto simp: l_def)
    then have full: "\<not> int (length (take (nat l) z)) < l" by simp
    have step: "write_chunks path z len pos ?st =
            write_chunks path (drop (nat l) z) len (pos + l) (fwrite ?st path (take (nat l) z))"
      using write_chunks_step [OF True l_def, of path z ?st] full by simp
    obtain c1 p1 where w:
      "fwrite ?st path (take (nat l) z)
         = s\<lparr>files := (files s)(k \<mapsto> File c1), opened := (path, p1) # rest\<rparr>"
      "c1 @ p1 = c @ p @ take (nat l) z"
      using fwrite_head [OF assms(1), where c = c and p = p and rest = rest
          and buf = "take (nat l) z"]
      by blast
    have "nat (len - (pos + l)) < nat (len - pos)" using l by simp
    moreover have "len - (pos + l) \<le> int (length (drop (nat l) z))" using l less.prems by simp
    ultimately obtain c' p' where ih:
      "write_chunks path (drop (nat l) z) len (pos + l)
          (s\<lparr>files := (files s)(k \<mapsto> File c1), opened := (path, p1) # rest\<rparr>)
         = (True, drop (nat (len - (pos + l))) (drop (nat l) z),
            s\<lparr>files := (files s)(k \<mapsto> File c'), opened := (path, p') # rest\<rparr>, [])"
      "c' @ p' = c1 @ p1 @ take (nat (len - (pos + l))) (drop (nat l) z)"
      using less.hyps [where pos = "pos + l" and z = "drop (nat l) z" and c = c1 and p = p1]
      by blast
    have d: "drop (nat (len - (pos + l))) (drop (nat l) z) = drop (nat (len - pos)) z"
      using l by (simp add: nat_add_distrib [symmetric] add.commute)
    have "nat (len - pos) = nat l + nat (len - (pos + l))" using l by simp
    then have tk: "take (nat l) z @ take (nat (len - (pos + l))) (drop (nat l) z)
                     = take (nat (len - pos)) z"
      by (simp add: take_add)
    have "c' @ p' = c @ p @ take (nat (len - pos)) z"
      using ih(2) w(2) tk by (metis append_assoc)
    then have "write_chunks path z len pos ?st
        = (True, drop (nat (len - pos)) z,
           s\<lparr>files := (files s)(k \<mapsto> File c'), opened := (path, p') # rest\<rparr>, [])
        \<and> c' @ p' = c @ p @ take (nat (len - pos)) z"
      using step w(1) ih(1) d by simp
    then show ?thesis by blast
  qed
qed

lemma write_chunks_short:
  assumes "node_of s path = Some k" and "int (length z) < len - pos"
  shows "\<exists>c' p'.
     write_chunks path z len pos (s\<lparr>files := (files s)(k \<mapsto> File c), opened := (path, p) # rest\<rparr>)
       = (False, [], s\<lparr>files := (files s)(k \<mapsto> File c'), opened := (path, p') # rest\<rparr>,
          [Error (Couldnt_read_byte (pos + int (length z)) (int (length z mod 4096)) path)])
     \<and> c' @ p' = c @ p @ take (4096 * (length z div 4096)) z"
  using assms(2)
proof (induction "length z" arbitrary: z pos c p rule: less_induct)
  case less
  let ?st = "s\<lparr>files := (files s)(k \<mapsto> File c), opened := (path, p) # rest\<rparr>"
  have True: "pos < len" using less.prems by linarith
  define l where "l = (if pos + 4096 > len then len - pos else 4096)"
  have l: "0 < l" "l \<le> len - pos" "l \<le> 4096"
    using True by (auto simp: l_def)
  show ?case
  proof (cases "int (length z) < l")
    case short: True
    then have small: "length z < 4096" "length z < nat l" using l by auto
    then have "write_chunks path z len pos ?st =
       (False, [], ?st, [Error (Couldnt_read_byte (pos + int (length z)) (int (length z)) path)])"
      using write_chunks_step [OF True l_def, of path z ?st] short by simp
    then have "write_chunks path z len pos ?st =
       (False, [], ?st,
        [Error (Couldnt_read_byte (pos + int (length z)) (int (length z mod 4096)) path)])
       \<and> c @ p = c @ p @ take (4096 * (length z div 4096)) z"
      using small by simp
    then show ?thesis by blast
  next
    case full: False
    then have l4096: "l = 4096" using less.prems by (auto simp: l_def split: if_splits)
    have len4096: "4096 \<le> length z" using full l4096 by simp
    have step: "write_chunks path z len pos ?st =
            write_chunks path (drop 4096 z) len (pos + 4096) (fwrite ?st path (take 4096 z))"
      using write_chunks_step [OF True l_def, of path z ?st] full l4096 by simp
    obtain c1 p1 where w:
      "fwrite ?st path (take 4096 z)
         = s\<lparr>files := (files s)(k \<mapsto> File c1), opened := (path, p1) # rest\<rparr>"
      "c1 @ p1 = c @ p @ take 4096 z"
      using fwrite_head [OF assms(1), where c = c and p = p and rest = rest
          and buf = "take 4096 z"]
      by blast
    have "length (drop 4096 z) < length z" using len4096 by simp
    moreover have "int (length (drop 4096 z)) < len - (pos + 4096)"
      using len4096 less.prems by simp
    ultimately obtain c' p' where ih:
      "write_chunks path (drop 4096 z) len (pos + 4096)
          (s\<lparr>files := (files s)(k \<mapsto> File c1), opened := (path, p1) # rest\<rparr>)
         = (False, [], s\<lparr>files := (files s)(k \<mapsto> File c'), opened := (path, p') # rest\<rparr>,
            [Error (Couldnt_read_byte (pos + 4096 + int (length (drop 4096 z)))
               (int (length (drop 4096 z) mod 4096)) path)])"
      "c' @ p' = c1 @ p1 @ take (4096 * (length (drop 4096 z) div 4096)) (drop 4096 z)"
      using less.hyps [where z = "drop 4096 z" and pos = "pos + 4096" and c = c1 and p = p1]
      by blast
    have "length z div 4096 = Suc ((length z - 4096) div 4096)"
      using len4096 by (simp add: le_div_geq)
    then have "4096 * (length z div 4096) = 4096 + 4096 * ((length z - 4096) div 4096)"
      by simp
    then have tk: "take 4096 z @ take (4096 * (length (drop 4096 z) div 4096)) (drop 4096 z)
                     = take (4096 * (length z div 4096)) z"
      by (simp add: take_add)
    have cp: "c' @ p' = c @ p @ take (4096 * (length z div 4096)) z"
      using ih(2) w(2) tk by (metis append_assoc)
    have e1: "pos + 4096 + int (length (drop 4096 z)) = pos + int (length z)"
      using len4096 by simp
    have e2: "length (drop 4096 z) mod 4096 = length z mod 4096"
      using len4096 by (simp add: le_mod_geq)
    have "write_chunks path z len pos ?st
        = (False, [], s\<lparr>files := (files s)(k \<mapsto> File c'), opened := (path, p') # rest\<rparr>,
           [Error (Couldnt_read_byte (pos + int (length z)) (int (length z mod 4096)) path)])
        \<and> c' @ p' = c @ p @ take (4096 * (length z div 4096)) z"
      using step w(1) ih(1) cp unfolding e1 e2 by simp
    then show ?thesis by blast
  qed
qed

lemma write_file_no_file:
  "fopen_wb s (file_path filename) = None \<Longrightarrow>
   write_file filename z len s =
     (0, z, s, [New_file (file_path filename), Error (Couldnt_create_file (file_path filename))])"
  by (simp add: write_file_def Let_def)

lemma write_file_complete:
  assumes "node_of s (file_path filename) = Some k" and "files s k \<noteq> Some Dir"
    and "parent_present s (file_path filename)" and "len \<le> int (length z)"
  shows "write_file filename z len s =
     (1, drop (nat len) z, s\<lparr>files := (files s)(k \<mapsto> File (take (nat len) z))\<rparr>,
      [New_file (file_path filename)])"
proof -
  let ?fp = "file_path filename"
  obtain c' p' where w:
    "write_chunks ?fp z len 0 (s\<lparr>files := (files s)(k \<mapsto> File []), opened := (?fp, []) # opened s\<rparr>)
       = (True, drop (nat (len - 0)) z,
          s\<lparr>files := (files s)(k \<mapsto> File c'), opened := (?fp, p') # opened s\<rparr>, [])"
    "c' @ p' = [] @ [] @ take (nat (len - 0)) z"
    using write_chunks_enough [OF assms(1), where len = len and pos = 0 and z = z and c = "[]"
        and p = "[]" and rest = "opened s"] assms(4)
    by auto
  show ?thesis
    using fopen_wb_Some [OF assms(1,2,3)] w fclose_head [OF assms(1), where c = c' and p = p' and rest = "opened s"]
    by (simp add: write_file_def Let_def)
qed

lemma write_file_short:
  assumes "node_of s (file_path filename) = Some k" and "files s k \<noteq> Some Dir"
    and "parent_present s (file_path filename)" and "int (length z) < len"
  shows "\<exists>c b. write_file filename z len s =
     (0, [],
      s\<lparr>files := (files s)(k \<mapsto> File c), opened := (file_path filename, b) # opened s\<rparr>,
      [New_file (file_path filename),
       Error (Couldnt_read_byte (int (length z)) (int (length z mod 4096)) (file_path filename))])
    \<and> c @ b = take (4096 * (length z div 4096)) z"
proof -
  let ?fp = "file_path filename"
  obtain c' p' where w:
    "write_chunks ?fp z len 0 (s\<lparr>files := (files s)(k \<mapsto> File []), opened := (?fp, []) # opened s\<rparr>)
       = (False, [], s\<lparr>files := (files s)(k \<mapsto> File c'), opened := (?fp, p') # opened s\<rparr>,
          [Error (Couldnt_read_byte (0 + int (length z)) (int (length z mod 4096)) ?fp)])"
    "c' @ p' = [] @ [] @ take (4096 * (length z div 4096)) z"
    using write_chunks_short [OF assms(1), where len = len and pos = 0 and z = z and c = "[]"
        and p = "[]" and rest = "opened s"] assms(4)
    by auto
  have "write_file filename z len s =
     (0, [], s\<lparr>files := (files s)(k \<mapsto> File c'), opened := (?fp, p') # opened s\<rparr>,
      [New_file ?fp, Error (Couldnt_read_byte (int (length z)) (int (length z mod 4096)) ?fp)])"
    using fopen_wb_Some [OF assms(1,2,3)] w(1) by (simp add: write_file_def Let_def)
  then show ?thesis using w(2) by auto
qed

text \<open>
  C10, as the code has it. When the stream holds fewer than \<open>len\<close> bytes (so that some
  chunk comes back shorter than requested before \<open>len\<close> bytes are copied) and the file
  could be opened, \<open>write_file\<close> reports \<open>Couldn't read byte ...\<close> once and returns 0. The
  file is there, not removed; its stream is still open, neither closed nor flushed. The
  chunks written before the short one, which are the first \<open>4096 * (length z div 4096)\<close>
  bytes of the stream, are in the file as far as stdio has passed them on, and the rest
  of them is still in the buffer of the stream: the file holds a part of them from the
  start, not always all.
\<close>

theorem write_file_short_read:
  assumes "node_of s (file_path filename) = Some k" and "files s k \<noteq> Some Dir"
    and "parent_present s (file_path filename)" and "int (length z) < len"
  shows "\<exists>c b. write_file filename z len s =
     (0, [],
      s\<lparr>files := (files s)(k \<mapsto> File c), opened := (file_path filename, b) # opened s\<rparr>,
      [New_file (file_path filename),
       Error (Couldnt_read_byte (int (length z)) (int (length z mod 4096)) (file_path filename))])
    \<and> c @ b = take (4096 * (length z div 4096)) z"
  by (rule write_file_short [OF assms])

text \<open>
  C10, witness: 5000 bytes are asked for and the stream holds 4100. The first chunk of
  4096 bytes, written to a stream that is new, goes to the file; the second comes back
  with 4 bytes instead of 904.
\<close>

theorem write_file_short_read_witness:
  "node_of empty_disk (file_path ''a'') = Some ''a''
   \<and> files empty_disk ''a'' \<noteq> Some Dir
   \<and> parent_present empty_disk (file_path ''a'')
   \<and> int (length (replicate 4100 (CHR ''x''))) < 5000
   \<and> (\<exists>c b. write_file ''a'' (replicate 4100 (CHR ''x'')) 5000 empty_disk =
       (0, [], empty_disk\<lparr>files := (files empty_disk)(''a'' \<mapsto> File c),
                 opened := (file_path ''a'', b) # opened empty_disk\<rparr>,
        [New_file (file_path ''a''),
         Error (Couldnt_read_byte (int (length (replicate 4100 (CHR ''x''))))
           (int (length (replicate 4100 (CHR ''x'')) mod 4096)) (file_path ''a''))])
      \<and> c @ b = take (4096 * (length (replicate 4100 (CHR ''x'')) div 4096))
                  (replicate 4100 (CHR ''x'')))
   \<and> write_file ''a'' (replicate 4100 (CHR ''x'')) 5000 empty_disk =
       (0, [], empty_disk\<lparr>files := [''a'' \<mapsto> File (replicate 4096 (CHR ''x''))],
                 opened := [(''a'', [])]\<rparr>,
        [New_file ''a'', Error (Couldnt_read_byte 4100 4 ''a'')])"
proof -
  have 1: "node_of empty_disk (file_path ''a'') = Some ''a''"
    by (simp add: file_path_def empty_disk_def slash_node_def)
  have 2: "files empty_disk ''a'' \<noteq> Some Dir" by (simp add: empty_disk_def)
  have 3: "parent_present empty_disk (file_path ''a'')"
    by (simp add: file_path_def empty_disk_def parent_present_def slash_parent_def)
  have 4: "int (length (replicate 4100 (CHR ''x''))) < 5000" by simp
  have 5: "write_file ''a'' (replicate 4100 (CHR ''x'')) 5000 empty_disk =
       (0, [], empty_disk\<lparr>files := [''a'' \<mapsto> File (replicate 4096 (CHR ''x''))],
                 opened := [(''a'', [])]\<rparr>,
        [New_file ''a'', Error (Couldnt_read_byte 4100 4 ''a'')])"
    by (simp add: write_file_def write_chunks.simps file_path_def fopen_wb_def fwrite_def
        os_write_def file_size_def parent_present_def slash_parent_def slash_node_def
        block_buffered_def empty_disk_def z_read_def Let_def)
  show ?thesis
    using 1 2 3 4 5 write_file_short_read [OF 1 2 3 4] by blast
qed

text \<open>
  C10, counterexample to the claim as stated. 10000 bytes are asked for and the stream
  holds 8200: two chunks of 4096 bytes are written and the third comes back with 8 bytes
  instead of 1808. At the return the file holds the first chunk only; the second is in
  the buffer of the stream that is left open.
\<close>

theorem buffered_chunk_counterexample:
  "write_file ''a'' (replicate 8200 (CHR ''x'')) 10000 empty_disk =
     (0, [], empty_disk\<lparr>files := [''a'' \<mapsto> File (replicate 4096 (CHR ''x''))],
               opened := [(''a'', replicate 4096 (CHR ''x''))]\<rparr>,
      [New_file ''a'', Error (Couldnt_read_byte 8200 8 ''a'')])
   \<and> replicate 4096 (CHR ''x'') \<noteq> take (2 * 4096) (replicate 8200 (CHR ''x''))"
  by (simp add: write_file_def write_chunks.simps file_path_def fopen_wb_def fwrite_def
      os_write_def file_size_def parent_present_def slash_parent_def slash_node_def
      block_buffered_def empty_disk_def z_read_def Let_def)

section \<open>Reading entries\<close>

lemma cstring_eq_full:
  assumes "length buf = length str"
  shows "(cstring buf = str) = (buf = str \<and> CHR 0x00 \<notin> set str)"
proof
  assume a: "cstring buf = str"
  then have "length (takeWhile (\<lambda>c. c \<noteq> CHR 0x00) buf) = length buf"
    using assms by (simp add: cstring_def)
  then have "dropWhile (\<lambda>c. c \<noteq> CHR 0x00) buf = []"
    by (metis append_self_conv length_0_conv length_append add_diff_cancel_left'
        takeWhile_dropWhile_id)
  then have all: "\<forall>c\<in>set buf. c \<noteq> CHR 0x00" by (simp add: dropWhile_eq_Nil_conv)
  then have "cstring buf = buf" by (simp add: cstring_def)
  with a all show "buf = str \<and> CHR 0x00 \<notin> set str" by auto
next
  assume "buf = str \<and> CHR 0x00 \<notin> set str"
  then show "cstring buf = str" by (auto simp: cstring_def)
qed

lemma cstring_END: "length ident = 3 \<Longrightarrow> (cstring ident = ''END'') = (ident = ''END'')"
  using cstring_eq_full [of ident "''END''"] by auto

lemma cstring_DIR: "length ident = 3 \<Longrightarrow> (cstring ident = ''DIR'') = (ident = ''DIR'')"
  using cstring_eq_full [of ident "''DIR''"] by auto

lemma read_size_full:
  "read_size (b1 # b2 # b3 # b4 # z) =
     (4, size_value (of_char b1) (of_char b2) (of_char b3) (of_char b4), z)"
  by (simp add: read_size_def read_byte_def z_read_def)

lemma read_size_short:
  assumes "length z < 4"
  shows "fst (read_size z) = int (length z) \<and> snd (snd (read_size z)) = []"
proof -
  consider "z = []" | a where "z = [a]" | a b where "z = [a, b]" | a b c where "z = [a, b, c]"
    using assms
    by (cases z; cases "tl z"; cases "tl (tl z)"; cases "tl (tl (tl z))") auto
  then show ?thesis
    by cases (simp_all add: read_size_def read_byte_def z_read_def)
qed

lemma read_filename_full:
  "length name = of_char nl \<Longrightarrow> read_filename E (nl # name @ z) = (cstring name, z)"
  by (simp add: read_filename_def z_read_def)

lemma unpack_loop_short:
  "length z < 3 \<Longrightarrow>
   unpack_loop E destdir num z pos s = (Some (Return 0), s, [Error Unexpected_end_of_archive])"
  by (simp add: unpack_loop.simps [of E destdir num z pos s] z_read_def)

lemma unpack_loop_END:
  "unpack_loop E destdir num (CHR ''E'' # CHR ''N'' # CHR ''D'' # z) pos s = (None, s, [])"
  by (simp add: unpack_loop.simps [of E destdir num _ pos s] z_read_def cstring_def)

lemma unpack_loop_entry:
  assumes "length ident = 3" and "ident \<noteq> ''END''"
  shows "unpack_loop E destdir num (ident @ z) pos s =
     (case unpack_entry E destdir num ident z pos s of
        (Some r, z2, s2, ev) \<Rightarrow> (Some r, s2, ev)
      | (None, z2, s2, ev) \<Rightarrow>
          (case unpack_loop E destdir num z2 (pos + 1) s2 of
             (r, s3, ev3) \<Rightarrow> (r, s3, ev @ ev3)))"
  using assms
  by (simp add: unpack_loop.simps [of E destdir num "ident @ z" pos s] z_read_def cstring_END)

lemma create_directory_new:
  assumes "\<not> nothing_to_do path" and "node_of s (skip_dot_slash path) = Some k"
    and "files s k = None" and "parent_present s (skip_dot_slash path)"
  shows "create_directory (Some path) s = (1, s\<lparr>files := (files s)(k \<mapsto> Dir)\<rparr>, [])"
  using assms by (simp add: create_directory_def is_directory_def mkdir_def)

lemma no_dot_path:
  assumes "path \<noteq> []" and "hd path \<noteq> CHR ''.''"
  shows "\<not> nothing_to_do path" and "skip_dot_slash path = path"
proof -
  obtain c cs where p: "path = c # cs" using assms(1) by (cases path) auto
  then have c: "c \<noteq> CHR ''.''" using assms(2) by simp
  show "\<not> nothing_to_do path" using p c by (cases cs) auto
  show "skip_dot_slash path = path" using p c by (cases cs) auto
qed

section \<open>unpack\_archive on the scenario archive\<close>

text \<open>
  C1. Let the decompressed bytes be \<open>01 00 00 00\<close>, \<open>DIR 00 00 00 00 03 sub\<close>, \<open>END\<close>; let
  the destination root be accepted by \<open>create_directory\<close> (it exists or is created,
  leaving the disk \<open>s1\<close>), and let \<open>sub\<close>, the path \<open>concatPaths\<close> forms from the root
  and the name, not start with a dot and name a node that is not on the disk yet and
  whose parent directory is. Then \<open>unpack_archive\<close> returns 1, the disk differs from
  \<open>s1\<close> by the one directory \<open>sub\<close> and nothing else, and the status sink receives, in
  this order, the messages, \<open>status(0,1)\<close>, \<open>status(1,1)\<close>, the entry's message,
  \<open>new_directory(sub)\<close> and the closing message.
\<close>

theorem unpack_archive_scenario:
  assumes "reader_init E archive = Some scenario_archive"
    and "create_directory (Some destdir) s = (1, s1, e1)"
    and "sub = concatPaths E destdir ''sub''"
    and "sub \<noteq> []" and "hd sub \<noteq> CHR ''.''"
    and "node_of s1 sub = Some k" and "files s1 k = None" and "parent_present s1 sub"
  shows "unpack_archive E archive destdir s =
     (Return 1, s1\<lparr>files := (files s1)(k \<mapsto> Dir)\<rparr>,
      Message Creating_installation_directory # e1 @
      [Status 0 1, Message Uncompressing_files, Status 1 1,
       Message (Entry_line ''DIR'' sub 0), New_directory sub,
       Message Finishing_Installation])"
proof -
  have cd: "create_directory (Some sub) s1 = (1, s1\<lparr>files := (files s1)(k \<mapsto> Dir)\<rparr>, [])"
    using create_directory_new [of sub s1 k] no_dot_path [OF assms(4,5)] assms(6,7,8) by simp
  have rf: "read_filename E (CHR 0x03 # ''sub'' @ ''END'') = (cstring ''sub'', ''END'')"
    by (rule read_filename_full) simp
  have entry: "unpack_entry E destdir 1 ''DIR''
        ([CHR 0x00, CHR 0x00, CHR 0x00, CHR 0x00, CHR 0x03] @ ''sub'' @ ''END'') 0 s1 =
      (None, ''END'', s1\<lparr>files := (files s1)(k \<mapsto> Dir)\<rparr>,
       [Status 1 1, Message (Entry_line ''DIR'' sub 0), New_directory sub])"
    using rf cd assms(3)
    by (simp add: unpack_entry_def dispatch_entry_def read_size_full cstring_def Let_def
        size_value_def)
  have loop: "unpack_loop E destdir 1
        (''DIR'' @ [CHR 0x00, CHR 0x00, CHR 0x00, CHR 0x00, CHR 0x03] @ ''sub'' @ ''END'') 0 s1 =
      (None, s1\<lparr>files := (files s1)(k \<mapsto> Dir)\<rparr>,
       [Status 1 1, Message (Entry_line ''DIR'' sub 0), New_directory sub])"
    using unpack_loop_entry [of "''DIR''" E destdir 1
        "[CHR 0x00, CHR 0x00, CHR 0x00, CHR 0x00, CHR 0x03] @ ''sub'' @ ''END''" 0 s1]
      entry unpack_loop_END [of E destdir 1 "[]" 1]
    by simp
  show ?thesis
    using loop assms(1,2)
    by (simp add: unpack_archive_def scenario_archive_def read_size_full size_value_def)
qed

text \<open>
  C1, witness: the archive stored uncompressed, unpacked into \<open>dest\<close> on the empty disk.
\<close>

theorem unpack_archive_scenario_witness:
  "reader_init plain_env scenario_archive = Some scenario_archive
   \<and> create_directory (Some ''dest'') empty_disk = (1, dest_disk, [])
   \<and> ''dest/sub'' = concatPaths plain_env ''dest'' ''sub''
   \<and> ''dest/sub'' \<noteq> [] \<and> hd ''dest/sub'' \<noteq> CHR ''.''
   \<and> node_of dest_disk ''dest/sub'' = Some ''dest/sub''
   \<and> files dest_disk ''dest/sub'' = None
   \<and> parent_present dest_disk ''dest/sub''
   \<and> unpack_archive plain_env scenario_archive ''dest'' empty_disk =
       (Return 1, empty_disk\<lparr>files := [''dest'' \<mapsto> Dir, ''dest/sub'' \<mapsto> Dir]\<rparr>,
        [Message Creating_installation_directory, Status 0 1, Message Uncompressing_files,
         Status 1 1, Message (Entry_line ''DIR'' ''dest/sub'' 0), New_directory ''dest/sub'',
         Message Finishing_Installation])"
proof -
  have 1: "reader_init plain_env scenario_archive = Some scenario_archive"
    by (simp add: plain_env_def)
  have 2: "create_directory (Some ''dest'') empty_disk = (1, dest_disk, [])"
    by (simp add: create_directory_def is_directory_def mkdir_def parent_present_def
        slash_node_def slash_parent_def empty_disk_def dest_disk_def)
  have 3: "''dest/sub'' = concatPaths plain_env ''dest'' ''sub''"
    by (simp add: plain_env_def)
  have 4: "''dest/sub'' \<noteq> []" and 5: "hd ''dest/sub'' \<noteq> CHR ''.''" by simp_all
  have 6: "node_of dest_disk ''dest/sub'' = Some ''dest/sub''"
    by (simp add: dest_disk_def empty_disk_def slash_node_def)
  have 7: "files dest_disk ''dest/sub'' = None"
    by (simp add: dest_disk_def empty_disk_def)
  have 8: "parent_present dest_disk ''dest/sub''"
    by (simp add: dest_disk_def empty_disk_def parent_present_def slash_parent_def)
  show ?thesis
    using 1 2 3 4 5 6 7 8 unpack_archive_scenario [OF 1 2 3 4 5 6 7 8]
    by (simp add: dest_disk_def empty_disk_def)
qed

section \<open>The layout of an entry\<close>

lemma unpack_entry_full:
  assumes "length name = of_char nl"
  shows "unpack_entry E destdir num ident (b1 # b2 # b3 # b4 # nl # name @ z) pos s =
         dispatch_entry E destdir num ident (cstring name) z
           (sint (size_value (of_char b1) (of_char b2) (of_char b3) (of_char b4))) pos s"
  using assms by (simp add: unpack_entry_def read_size_full read_filename_full)

lemma dispatch_entry_DIR:
  "dispatch_entry E destdir num ''DIR'' name z len pos s =
     (case create_directory (Some (concatPaths E destdir (skip_dot_slash name))) s of
        (r, s1, e1) \<Rightarrow>
          (if r = 0 then Some (Return 0) else None, z, s1,
           [Status (pos + 1) num,
            Message (Entry_line ''DIR'' (concatPaths E destdir (skip_dot_slash name)) len),
            New_directory (concatPaths E destdir (skip_dot_slash name))] @ e1))"
  by (simp add: dispatch_entry_def Let_def cstring_def)

lemma dispatch_entry_DIR_stream:
  "fst (snd (dispatch_entry E destdir num ''DIR'' name z len pos s)) = z"
  by (simp add: dispatch_entry_DIR split: prod.splits)

lemma read_filename_truncated:
  assumes "tail = [] \<and> nl = indet_len E \<and> got = [] \<or> tail = nl # got \<and> length got < of_char nl"
  shows "read_filename E tail =
           (cstring (got @ map (indet_mem E) [length got..<of_char nl]), [])"
  using assms by (auto simp: read_filename_def z_read_def Let_def)

lemma unpack_entry_truncated:
  assumes "tail = [] \<and> nl = indet_len E \<and> got = [] \<or> tail = nl # got \<and> length got < of_char nl"
  shows "unpack_entry E destdir num ident (b1 # b2 # b3 # b4 # tail) pos s =
     dispatch_entry E destdir num ident
       (cstring (got @ map (indet_mem E) [length got..<of_char nl])) []
       (sint (size_value (of_char b1) (of_char b2) (of_char b3) (of_char b4))) pos s"
  using read_filename_truncated [OF assms]
  by (simp add: unpack_entry_def read_size_full)

text \<open>
  C3, as the code has it. For every entry, a \<open>DIR\<close> entry included, the four bytes after
  the tag are taken as the size field, the byte after them as the name length, and the
  bytes after that as the name; the entry is then dispatched with that size and name.
  For a \<open>DIR\<close> entry the dispatch does not depend on the size but for the text of the
  message: progress is reported, then the message with the size in it, then
  \<open>new_directory\<close>, and \<open>create_directory\<close> is called on the joined path. Nothing more
  is read: the stream is left right after the name, whatever the size field holds.
\<close>

theorem entry_size_field_before_name:
  assumes "length name = of_char nl"
  shows "unpack_entry E destdir num ident (b1 # b2 # b3 # b4 # nl # name @ z) pos s
           = dispatch_entry E destdir num ident (cstring name) z
               (sint (size_value (of_char b1) (of_char b2) (of_char b3) (of_char b4))) pos s
         \<and> dispatch_entry E destdir num ''DIR'' (cstring name) z len pos s
           = (case create_directory
                     (Some (concatPaths E destdir (skip_dot_slash (cstring name)))) s of
                (r, s1, e1) \<Rightarrow>
                  (if r = 0 then Some (Return 0) else None, z, s1,
                   [Status (pos + 1) num,
                    Message (Entry_line ''DIR''
                      (concatPaths E destdir (skip_dot_slash (cstring name))) len),
                    New_directory (concatPaths E destdir (skip_dot_slash (cstring name)))]
                   @ e1))
         \<and> fst (snd (dispatch_entry E destdir num ''DIR'' (cstring name) z len pos s)) = z"
  using unpack_entry_full [OF assms] dispatch_entry_DIR dispatch_entry_DIR_stream by simp

text \<open>
  C3, witness: the entry of the scenario archive, \<open>00 00 00 00 03 sub\<close> after the tag
  \<open>DIR\<close>, followed by \<open>END\<close>, on a disk that has the directory \<open>dest\<close>; and the same
  name dispatched as a \<open>DIR\<close> entry of size 7.
\<close>

theorem entry_size_field_before_name_witness:
  "length ''sub'' = of_char (CHR 0x03)
   \<and> unpack_entry plain_env ''dest'' 1 ''DIR''
        (CHR 0x00 # CHR 0x00 # CHR 0x00 # CHR 0x00 # CHR 0x03 # ''sub'' @ ''END'') 0 dest_disk
       = (None, ''END'', empty_disk\<lparr>files := [''dest'' \<mapsto> Dir, ''dest/sub'' \<mapsto> Dir]\<rparr>,
          [Status 1 1, Message (Entry_line ''DIR'' ''dest/sub'' 0), New_directory ''dest/sub''])
   \<and> dispatch_entry plain_env ''dest'' 1 ''DIR'' (cstring ''sub'') ''END'' 7 0 dest_disk
       = (None, ''END'', empty_disk\<lparr>files := [''dest'' \<mapsto> Dir, ''dest/sub'' \<mapsto> Dir]\<rparr>,
          [Status 1 1, Message (Entry_line ''DIR'' ''dest/sub'' 7), New_directory ''dest/sub''])"
proof -
  have 1: "length ''sub'' = of_char (CHR 0x03)" by simp
  have cd: "create_directory (Some ''dest/sub'') dest_disk
              = (1, empty_disk\<lparr>files := [''dest'' \<mapsto> Dir, ''dest/sub'' \<mapsto> Dir]\<rparr>, [])"
    by (simp add: create_directory_def is_directory_def mkdir_def parent_present_def
        slash_node_def slash_parent_def empty_disk_def dest_disk_def)
  have d0: "dispatch_entry plain_env ''dest'' 1 ''DIR'' (cstring ''sub'') ''END'' 0 0 dest_disk
       = (None, ''END'', empty_disk\<lparr>files := [''dest'' \<mapsto> Dir, ''dest/sub'' \<mapsto> Dir]\<rparr>,
          [Status 1 1, Message (Entry_line ''DIR'' ''dest/sub'' 0), New_directory ''dest/sub''])"
    using cd by (simp add: dispatch_entry_def cstring_def plain_env_def Let_def)
  show ?thesis
    using 1 d0 cd
      entry_size_field_before_name [OF 1, where E = plain_env and destdir = "''dest''"
        and num = 1 and ident = "''DIR''" and ?b1.0 = "CHR 0x00" and ?b2.0 = "CHR 0x00"
        and ?b3.0 = "CHR 0x00" and ?b4.0 = "CHR 0x00" and z = "''END''" and pos = 0
        and s = dest_disk and len = 7]
    by (simp add: size_value_def cstring_def plain_env_def)
qed

text \<open>
  C3, counterexample to the claim as stated. An archive whose \<open>DIR\<close> entry has no size
  field, \<open>01 00 00 00\<close>, \<open>DIR 03 sub\<close>, \<open>END\<close>, is not unpacked to a directory \<open>sub\<close>: the
  bytes \<open>03 s u b\<close> are taken as the size, \<open>E\<close> as the name length, \<open>ND\<close> as what the
  stream still has of the name, and the next tag is missing.
\<close>

theorem dir_entry_without_size_field_counterexample:
  "unpack_archive plain_env
     ([CHR 0x01, CHR 0x00, CHR 0x00, CHR 0x00] @ ''DIR'' @ [CHR 0x03] @ ''sub'' @ ''END'')
     ''dest'' empty_disk
   = (Return 0, empty_disk\<lparr>files := [''dest'' \<mapsto> Dir, ''dest/ND'' \<mapsto> Dir]\<rparr>,
      [Message Creating_installation_directory, Status 0 1, Message Uncompressing_files,
       Status 1 1, Message (Entry_line ''DIR'' ''dest/ND'' 1651864323), New_directory ''dest/ND'',
       Error Unexpected_end_of_archive])"
  by (simp add: unpack_archive_def unpack_loop.simps unpack_entry_def dispatch_entry_def
      read_size_def read_byte_def read_filename_def z_read_def size_value_def cstring_def
      create_directory_def is_directory_def mkdir_def parent_present_def slash_node_def
      slash_parent_def plain_env_def empty_disk_def Let_def
      map_replicate_const takeWhile_replicate)

section \<open>Places where the code misses what it sets out to do\<close>

text \<open>
  C2. A stream that ends inside the size field of an entry, or inside the archive header,
  makes \<open>unpack_archive\<close> return 0 through \<open>if(l<4) return 0;\<close> without any call of
  \<open>f->error\<close>, where the short read of a tag three lines above reports
  \<open>Unexpected end of archive\<close>.
\<close>

theorem truncated_size_field_reports_no_error:
  "unpack_archive plain_env
     ([CHR 0x01, CHR 0x00, CHR 0x00, CHR 0x00] @ ''FIL'' @ [CHR 0x05, CHR 0x00]) ''dest'' empty_disk
   = (Return 0, empty_disk\<lparr>files := [''dest'' \<mapsto> Dir]\<rparr>,
      [Message Creating_installation_directory, Status 0 1, Message Uncompressing_files])
   \<and> unpack_archive plain_env [CHR 0x01, CHR 0x00] ''dest'' empty_disk
   = (Return 0, empty_disk\<lparr>files := [''dest'' \<mapsto> Dir]\<rparr>,
      [Message Creating_installation_directory])"
  by (simp add: unpack_archive_def unpack_loop.simps unpack_entry_def dispatch_entry_def
      read_size_def read_byte_def read_filename_def z_read_def size_value_def cstring_def
      create_directory_def is_directory_def mkdir_def parent_present_def slash_node_def
      slash_parent_def plain_env_def empty_disk_def Let_def)

text \<open>
  C9. A stream that ends inside the name of an entry. Lines 428-432 look at the result of
  neither read, where the reads of the tag and of the size field just above do. The name
  is what is found in the block \<open>malloc\<close> returned, filled as far as the bytes went, and
  the entry is dispatched under it: for the bytes \<open>ab\<close> of a name of declared length 5
  the directory made is \<open>dest/abxxx\<close> when the block held \<open>x\<close> bytes, and \<open>dest/ab\<close>
  when it held zeros. The end of the stream is reported only at the next tag.
\<close>

theorem truncated_name_takes_stale_memory:
  "unpack_archive stale_env
     ([CHR 0x01, CHR 0x00, CHR 0x00, CHR 0x00] @ ''DIR''
        @ [CHR 0x00, CHR 0x00, CHR 0x00, CHR 0x00, CHR 0x05] @ ''ab'')
     ''dest'' empty_disk
   = (Return 0, empty_disk\<lparr>files := [''dest'' \<mapsto> Dir, ''dest/abxxx'' \<mapsto> Dir]\<rparr>,
      [Message Creating_installation_directory, Status 0 1, Message Uncompressing_files,
       Status 1 1, Message (Entry_line ''DIR'' ''dest/abxxx'' 0), New_directory ''dest/abxxx'',
       Error Unexpected_end_of_archive])
   \<and> unpack_archive plain_env
     ([CHR 0x01, CHR 0x00, CHR 0x00, CHR 0x00] @ ''DIR''
        @ [CHR 0x00, CHR 0x00, CHR 0x00, CHR 0x00, CHR 0x05] @ ''ab'')
     ''dest'' empty_disk
   = (Return 0, empty_disk\<lparr>files := [''dest'' \<mapsto> Dir, ''dest/ab'' \<mapsto> Dir]\<rparr>,
      [Message Creating_installation_directory, Status 0 1, Message Uncompressing_files,
       Status 1 1, Message (Entry_line ''DIR'' ''dest/ab'' 0), New_directory ''dest/ab'',
       Error Unexpected_end_of_archive])"
  by (simp add: unpack_archive_def unpack_loop.simps unpack_entry_def dispatch_entry_def
      read_size_def read_byte_def read_filename_def z_read_def size_value_def cstring_def
      create_directory_def is_directory_def mkdir_def parent_present_def slash_node_def
      slash_parent_def plain_env_def stale_env_def empty_disk_def Let_def
      map_replicate_const takeWhile_replicate numeral_3_eq_3)

lemma file_path_no_slash: "CHR ''/'' \<notin> set (file_path filename)"
  by (auto simp: file_path_def)

lemma write_file_reports_file_path:
  "\<exists>ev. snd (snd (snd (write_file filename z len s))) = New_file (file_path filename) # ev"
  by (auto simp: write_file_def Let_def split: option.splits prod.splits bool.splits)

text \<open>
  C6. \<open>write_file\<close> overwrites each \<open>/\<close> with a backslash in every build, also where the
  separator is \<open>/\<close>: \<open>docs/a.txt\<close> is written to a file whose name is the ten characters
  \<open>docs\<close>, backslash, \<open>a.txt\<close>.
\<close>

theorem write_file_backslash_in_every_build:
  "write_file ''docs/a.txt'' ''hi'' 2 empty_disk =
   (1, [], empty_disk\<lparr>files := [''docs'' @ [CHR 0x5C] @ ''a.txt'' \<mapsto> File ''hi'']\<rparr>,
    [New_file (''docs'' @ [CHR 0x5C] @ ''a.txt'')])"
  using write_file_complete [where filename = "''docs/a.txt''" and s = empty_disk
      and k = "''docs'' @ [CHR 0x5C] @ ''a.txt''" and len = 2 and z = "''hi''"]
  by (simp add: file_path_def empty_disk_def slash_node_def parent_present_def slash_parent_def)

lemma nothing_to_do_iff:
  "nothing_to_do path = (path = [] \<or> path = ''.'' \<or> (\<exists>rest. path = ''..'' @ rest))"
  by (cases path rule: nothing_to_do.cases) auto

lemma create_directory_early_return:
  "nothing_to_do path \<Longrightarrow> create_directory (Some path) s = (1, s, [])"
  by (simp add: create_directory_def)

text \<open>
  C7. \<open>create_directory\<close> takes every path that starts with two dots for one where there
  is \<open>nothing to do\<close>: for \<open>../x\<close>, which does not exist, it returns 1 and creates
  nothing, where for \<open>x\<close> it creates the directory.
\<close>

theorem create_directory_skips_dotdot_prefix:
  "create_directory (Some ''../x'') empty_disk = (1, empty_disk, [])
   \<and> files empty_disk ''../x'' = None
   \<and> create_directory (Some ''x'') empty_disk
       = (1, empty_disk\<lparr>files := [''x'' \<mapsto> Dir]\<rparr>, [])"
  by (simp add: create_directory_def is_directory_def mkdir_def parent_present_def
      slash_node_def slash_parent_def empty_disk_def)

section \<open>The loop over the entries\<close>

lemma of_char_char_of_unat: "(of_char (char_of (unat w)) :: 32 word) = take_bit 8 w"
proof -
  have "(of_char (char_of (unat w)) :: nat) = unat w mod 256" by simp
  then have "(of_nat (of_char (char_of (unat w))) :: 32 word) = of_nat (unat w mod 256)"
    by (simp only:)
  then have "(of_char (char_of (unat w)) :: 32 word) = of_nat (unat w mod 256)"
    by (simp only: of_nat_of_char)
  also have "\<dots> = take_bit 8 w"
    by (simp add: take_bit_eq_mod unat_mod [symmetric] word_arith_nat_defs)
  finally show ?thesis .
qed

lemma size_value_le32:
  "size_value (of_char (char_of (unat w))) (of_char (char_of (unat (drop_bit 8 w))))
     (of_char (char_of (unat (drop_bit 16 w)))) (of_char (char_of (unat (drop_bit 24 w))))
   = (w :: 32 word)"
  unfolding size_value_def of_char_char_of_unat
  apply (rule bit_word_eqI)
  apply (auto simp: bit_simps)
  subgoal for n by (cases "24 \<le> n") auto
  done


lemma status_calls_append: "status_calls (xs @ ys) = status_calls xs @ status_calls ys"
  by (induction xs rule: status_calls.induct) auto

lemma write_file_cases:
  "(int (length z) < len \<or> fopen_wb s (file_path filename) = None)
     \<and> fst (write_file filename z len s) = 0
     \<and> status_calls (snd (snd (snd (write_file filename z len s)))) = []
   \<or> (\<exists>k. len \<le> int (length z) \<and> node_of s (file_path filename) = Some k
          \<and> files s k \<noteq> Some Dir \<and> parent_present s (file_path filename)
          \<and> write_file filename z len s =
               (1, drop (nat len) z, s\<lparr>files := (files s)(k \<mapsto> File (take (nat len) z))\<rparr>,
                [New_file (file_path filename)]))"
proof (cases "fopen_wb s (file_path filename) = None")
  case True
  then show ?thesis by (simp add: write_file_no_file)
next
  case False
  then obtain k where ok: "node_of s (file_path filename) = Some k" "files s k \<noteq> Some Dir"
      "parent_present s (file_path filename)"
    using fopen_wb_cases [of s "file_path filename"] by auto
  show ?thesis
  proof (cases "int (length z) < len")
    case True
    then show ?thesis using write_file_short [OF ok True] by auto
  next
    case False
    then have "len \<le> int (length z)" by simp
    then show ?thesis using write_file_complete [OF ok] ok by auto
  qed
qed

lemma write_file_success:
  assumes "write_file filename z len s = (r, z', s', ev)" and "r \<noteq> 0"
  shows "\<exists>k. len \<le> int (length z) \<and> node_of s (file_path filename) = Some k
         \<and> files s k \<noteq> Some Dir \<and> parent_present s (file_path filename)
         \<and> r = 1 \<and> z' = drop (nat len) z
         \<and> s' = s\<lparr>files := (files s)(k \<mapsto> File (take (nat len) z))\<rparr>
         \<and> ev = [New_file (file_path filename)]"
  using write_file_cases [where z = z and len = len and s = s and filename = filename] assms
  by auto

lemma status_calls_write_file:
  "status_calls (snd (snd (snd (write_file filename z len s)))) = []"
  using write_file_cases [where z = z and len = len and s = s and filename = filename] by auto

lemma create_directory_cases:
  "create_directory path s = (1, s, [])
   \<or> (\<exists>p k. path = Some p \<and> \<not> nothing_to_do p \<and> node_of s (skip_dot_slash p) = Some k
          \<and> files s k = None \<and> parent_present s (skip_dot_slash p)
          \<and> create_directory path s = (1, s\<lparr>files := (files s)(k \<mapsto> Dir)\<rparr>, []))
   \<or> (\<exists>p. path = Some p
          \<and> create_directory path s = (0, s, [Error (Create_directory_FAILED (skip_dot_slash p))]))"
  by (auto simp: create_directory_def is_directory_def mkdir_def Let_def split: option.splits)

lemma status_calls_create_directory:
  "status_calls (snd (snd (create_directory path s))) = []"
  using create_directory_cases [of path s] by auto

lemma dispatch_entry_status:
  "status_calls (snd (snd (snd (dispatch_entry E destdir num ident name z len pos s))))
     = [(pos + 1, num)]"
proof -
  let ?f = "concatPaths E destdir (skip_dot_slash name)"
  have cd: "status_calls e1 = []" if "create_directory p s = (r, s1, e1)" for p r s1 e1
    using status_calls_create_directory [of p s] that by simp
  have wf: "status_calls e2 = []" if "write_file ?f z len s1 = (r2, z3, s2, e2)" for s1 r2 z3 s2 e2
    using status_calls_write_file [of ?f z len s1] that by simp
  show ?thesis
    by (auto simp: dispatch_entry_def Let_def status_calls_append cd wf
        split: prod.splits option.splits)
qed

lemma dispatch_entry_continues:
  assumes "dispatch_entry E destdir num ident name z len pos s = (None, z2, s2, ev)"
  shows "if cstring ident = ''DIR'' then z2 = z
         else len \<le> int (length z) \<and> z2 = drop (nat len) z"
  using assms
  by (auto simp: dispatch_entry_def Let_def
      split: prod.splits option.splits if_splits dest: write_file_success)


lemma write_file_stream:
  "length (fst (snd (write_file filename z len s))) \<le> length z"
proof (cases "fopen_wb s (file_path filename) = None")
  case True
  then show ?thesis by (simp add: write_file_no_file)
next
  case False
  then obtain k where ok: "node_of s (file_path filename) = Some k" "files s k \<noteq> Some Dir"
      "parent_present s (file_path filename)"
    using fopen_wb_cases [of s "file_path filename"] by auto
  show ?thesis
    using write_file_short [OF ok, where z = z and len = len] write_file_complete [OF ok, where z = z and len = len]
    by (cases "int (length z) < len") auto
qed

lemma read_size_stream: "length (snd (snd (read_size z))) \<le> length z"
  by (simp add: read_size_def read_byte_def z_read_def)

lemma read_filename_stream: "length (snd (read_filename E z)) \<le> length z"
  by (simp add: read_filename_def z_read_def Let_def)

lemma dispatch_entry_stream:
  "length (fst (snd (dispatch_entry E destdir num ident name z len pos s))) \<le> length z"
proof -
  have "length z3 \<le> length z" if "write_file f z len s1 = (r2, z3, s2, e2)" for f s1 r2 z3 s2 e2
    using write_file_stream [of f z len s1] that by simp
  then show ?thesis
    by (auto simp: dispatch_entry_def Let_def split: prod.splits option.splits)
qed

lemma unpack_entry_stream:
  "length (fst (snd (unpack_entry E destdir num ident z pos s))) \<le> length z"
proof -
  obtain l v z1 where A: "read_size z = (l, v, z1)" by (cases "read_size z") auto
  obtain name z2 where B: "read_filename E z1 = (name, z2)" by (cases "read_filename E z1") auto
  have "length z1 \<le> length z" using read_size_stream [of z] A by simp
  moreover have "length z2 \<le> length z1" using read_filename_stream [of E z1] B by simp
  moreover have "length (fst (snd (dispatch_entry E destdir num ident name z2 (sint v) pos s)))
      \<le> length z2" by (rule dispatch_entry_stream)
  ultimately show ?thesis by (simp add: unpack_entry_def A B)
qed

lemma unpack_loop_cases:
  obtains
    (short) "length z < 3"
      "unpack_loop E destdir num z pos s = (Some (Return 0), s, [Error Unexpected_end_of_archive])"
  | (finished) "take 3 z = ''END''" "unpack_loop E destdir num z pos s = (None, s, [])"
  | (left) r z2 s2 ev where "3 \<le> length z" "take 3 z \<noteq> ''END''"
      "unpack_entry E destdir num (take 3 z) (drop 3 z) pos s = (Some r, z2, s2, ev)"
      "unpack_loop E destdir num z pos s = (Some r, s2, ev)"
  | (continued) z2 s2 ev r3 s3 ev3 where "3 \<le> length z" "take 3 z \<noteq> ''END''"
      "unpack_entry E destdir num (take 3 z) (drop 3 z) pos s = (None, z2, s2, ev)"
      "length z2 < length z"
      "unpack_loop E destdir num z2 (pos + 1) s2 = (r3, s3, ev3)"
      "unpack_loop E destdir num z pos s = (r3, s3, ev @ ev3)"
proof (cases "length z < 3")
  case True
  then show ?thesis using short unpack_loop_short by blast
next
  case False
  then have len: "3 \<le> length z" "length (take 3 z) = 3" by auto
  have z: "z = take 3 z @ drop 3 z" by simp
  show ?thesis
  proof (cases "take 3 z = ''END''")
    case True
    then have "z = CHR ''E'' # CHR ''N'' # CHR ''D'' # drop 3 z" using z by (metis append_Cons append_Nil)
    then have "unpack_loop E destdir num z pos s = (None, s, [])"
      using unpack_loop_END [of E destdir num "drop 3 z" pos s] by simp
    then show ?thesis using finished True by blast
  next
    case False
    note unf = unpack_loop_entry [OF len(2) False, of E destdir num "drop 3 z" pos s,
        unfolded append_take_drop_id]
    obtain r z2 s2 ev where ue:
      "unpack_entry E destdir num (take 3 z) (drop 3 z) pos s = (r, z2, s2, ev)"
      by (cases "unpack_entry E destdir num (take 3 z) (drop 3 z) pos s") auto
    show ?thesis
    proof (cases r)
      case (Some res)
      then show ?thesis using left [OF len(1) False] ue unf by simp
    next
      case None
      obtain r3 s3 ev3 where rest: "unpack_loop E destdir num z2 (pos + 1) s2 = (r3, s3, ev3)"
        by (cases "unpack_loop E destdir num z2 (pos + 1) s2") auto
      have "length z2 \<le> length (drop 3 z)"
        using unpack_entry_stream [of E destdir num "take 3 z" "drop 3 z" pos s] ue by simp
      then have "length z2 < length z" using len by simp
      then show ?thesis using continued [OF len(1) False _ _ rest] ue unf None rest by simp
    qed
  qed
qed


lemma dispatch_entry_left:
  "dispatch_entry E destdir num ident name z len pos s = (Some r, z2, s2, ev) \<Longrightarrow> r \<noteq> Return 1"
  by (auto simp: dispatch_entry_def Let_def split: prod.splits option.splits if_splits)

lemma unpack_entry_left:
  "unpack_entry E destdir num ident z pos s = (Some r, z2, s2, ev) \<Longrightarrow> r \<noteq> Return 1"
  by (auto simp: unpack_entry_def split: prod.splits if_splits dest: dispatch_entry_left)

lemma unpack_loop_left:
  "unpack_loop E destdir num z pos s = (Some r, s', ev) \<Longrightarrow> r \<noteq> Return 1"
proof (induction "length z" arbitrary: z pos s s' ev rule: less_induct)
  case less
  show ?case
  proof (cases rule: unpack_loop_cases [of z E destdir num pos s])
    case short
    then show ?thesis using less.prems by simp
  next
    case finished
    then show ?thesis using less.prems by simp
  next
    case (left r z2 s2 ev)
    then show ?thesis using less.prems unpack_entry_left by auto
  next
    case (continued z2 s2 ev2 r3 s3 ev3)
    then show ?thesis using less.prems less.hyps [of z2 "pos + 1" s2 s3 ev3] by simp
  qed
qed

lemma unpack_archive_success:
  assumes "unpack_archive E archive destdir s = (Return 1, s', ev)"
  obtains z v z1 s1 ev2 where
    "reader_init E archive = Some z"
    "create_directory (Some destdir) s = (1, s1, [])"
    "read_size z = (4, v, z1)"
    "unpack_loop E destdir (sint v) z1 0 s1 = (None, s', ev2)"
    "ev = Message Creating_installation_directory
            # [Status 0 (sint v), Message Uncompressing_files] @ ev2
            @ [Message Finishing_Installation]"
proof -
  obtain z where z: "reader_init E archive = Some z"
    using assms by (cases "reader_init E archive") (auto simp: unpack_archive_def)
  obtain r s1 e1 where cd: "create_directory (Some destdir) s = (r, s1, e1)"
    by (cases "create_directory (Some destdir) s") auto
  have r: "r \<noteq> 0" using assms z cd by (auto simp: unpack_archive_def Let_def)
  then have cd1: "create_directory (Some destdir) s = (1, s1, [])"
    using create_directory_cases [of "Some destdir" s] cd by auto
  obtain l v z1 where rs: "read_size z = (l, v, z1)" by (cases "read_size z") auto
  have l: "\<not> l < 4" using assms z cd1 rs by (auto simp: unpack_archive_def Let_def)
  have "l = 4"
  proof (cases "length z < 4")
    case True
    then show ?thesis using read_size_short [of z] rs l by simp
  next
    case False
    then obtain b1 b2 b3 b4 z' where "z = b1 # b2 # b3 # b4 # z'"
      by (cases z; cases "tl z"; cases "tl (tl z)"; cases "tl (tl (tl z))") auto
    then show ?thesis using read_size_full [of b1 b2 b3 b4 z'] rs by simp
  qed
  obtain r2 s2 ev2 where loop: "unpack_loop E destdir (sint v) z1 0 s1 = (r2, s2, ev2)"
    by (cases "unpack_loop E destdir (sint v) z1 0 s1") auto
  have "r2 = None"
  proof (cases r2)
    case (Some res)
    then have "res = Return 1"
      using assms z cd1 rs l loop by (simp add: unpack_archive_def Let_def)
    then show ?thesis using unpack_loop_left loop Some by blast
  qed simp
  then show ?thesis
    using that [OF z cd1 _ _ ] assms z cd1 rs l loop \<open>l = 4\<close>
    by (simp add: unpack_archive_def Let_def)
qed

lemma unpack_entry_encoded:
  assumes "entry_ok e"
  shows "unpack_loop E destdir num (encode_entry e @ tail) pos s =
     (case dispatch_entry E destdir num (tag e) (cstring (name_bytes e)) (payload e @ tail)
             (sint (size_field e)) pos s of
        (Some r, z2, s2, ev) \<Rightarrow> (Some r, s2, ev)
      | (None, z2, s2, ev) \<Rightarrow>
          (case unpack_loop E destdir num z2 (pos + 1) s2 of
             (r, s3, ev3) \<Rightarrow> (r, s3, ev @ ev3)))"
proof -
  have t: "length (tag e) = 3" "tag e \<noteq> ''END''" and n: "length (name_bytes e) < 256"
    using assms by (auto simp: entry_ok_def)
  have nl: "length (name_bytes e) = of_char (char_of (length (name_bytes e)))"
    using n by simp
  have "unpack_entry E destdir num (tag e)
          (le32 (size_field e) @ [char_of (length (name_bytes e))] @ name_bytes e @ payload e @ tail)
          pos s
        = dispatch_entry E destdir num (tag e) (cstring (name_bytes e)) (payload e @ tail)
             (sint (size_field e)) pos s"
    using unpack_entry_full [OF nl, of E destdir num "tag e" _ _ _ _ "payload e @ tail" pos s]
    by (simp add: le32_def size_value_le32)
  then show ?thesis
    using unpack_loop_entry [OF t, of E destdir num _ pos s]
    by (simp add: encode_entry_def)
qed

lemma map_upt_shift:
  "map (\<lambda>i. (pos + int i, num :: int)) [Suc 0..<Suc (Suc n)] =
     (pos + 1, num) # map (\<lambda>i. (pos + 1 + int i, num)) [Suc 0..<Suc n]"
proof -
  have "[Suc 0..<Suc (Suc n)] = Suc 0 # map Suc [Suc 0..<Suc n]"
    by (simp add: upt_conv_Cons map_Suc_upt del: upt_Suc)
  then show ?thesis by (simp add: comp_def add.assoc add.commute del: upt_Suc)
qed

lemma unpack_loop_encoded:
  assumes "list_all entry_ok es"
    and "unpack_loop E destdir num (concat (map encode_entry es) @ ''END'' @ tail) pos s
           = (None, s', ev)"
  shows "status_calls ev = map (\<lambda>i. (pos + int i, num)) [1..<Suc (length es)]"
  using assms
proof (induction es arbitrary: pos s ev)
  case Nil
  then show ?case using unpack_loop_END [of E destdir num tail pos s] by simp
next
  case (Cons e es)
  let ?rest = "concat (map encode_entry es) @ ''END'' @ tail"
  have ok: "entry_ok e" using Cons.prems(1) by simp
  obtain r z2 s2 ev1 where d:
    "dispatch_entry E destdir num (tag e) (cstring (name_bytes e)) (payload e @ ?rest)
       (sint (size_field e)) pos s = (r, z2, s2, ev1)"
    by (cases "dispatch_entry E destdir num (tag e) (cstring (name_bytes e)) (payload e @ ?rest)
       (sint (size_field e)) pos s") auto
  obtain r3 s3 ev3 where l3: "unpack_loop E destdir num z2 (pos + 1) s2 = (r3, s3, ev3)"
    by (cases "unpack_loop E destdir num z2 (pos + 1) s2") auto
  have unf: "unpack_loop E destdir num (encode_entry e @ ?rest) pos s = (None, s', ev)"
    using Cons.prems(2) by simp
  have r: "r = None" using unf unpack_entry_encoded [OF ok, of E destdir num ?rest pos s] d
    by (cases r) auto
  then have res: "r3 = None" "s3 = s'" "ev = ev1 @ ev3"
    using unf unpack_entry_encoded [OF ok, of E destdir num ?rest pos s] d l3 by auto
  have "z2 = ?rest"
    using dispatch_entry_continues [OF d [unfolded r]] ok
    by (auto simp: entry_ok_def cstring_DIR split: if_splits)
  then have "status_calls ev3 = map (\<lambda>i. (pos + 1 + int i, num)) [1..<Suc (length es)]"
    using Cons.IH [of "pos + 1" s2 ev3] Cons.prems(1) l3 res by simp
  moreover have "status_calls ev1 = [(pos + 1, num)]"
    using dispatch_entry_status [of E destdir num "tag e" "cstring (name_bytes e)"
        "payload e @ ?rest" "sint (size_field e)" pos s] d by simp
  ultimately show ?case
    using map_upt_shift [of pos num "length es"]
    by (simp add: res status_calls_append del: upt_Suc)
qed

lemma sample_bytes: "sample_archive = [CHR 0x02, CHR 0x00, CHR 0x00, CHR 0x00] @ ''DIR'' @ [CHR 0x00, CHR 0x00, CHR 0x00, CHR 0x00, CHR 0x03] @ ''sub''
   @ ''FIL'' @ [CHR 0x05, CHR 0x00, CHR 0x00, CHR 0x00, CHR 0x09] @ ''sub/a.txt'' @ ''hello'' @ ''END''"
  by code_simp

lemma nested_bytes:
  "encode_archive 1 [Entry ''FIL'' 2 ''a/b/c.txt'' ''hi''] =
     [CHR 0x01, CHR 0x00, CHR 0x00, CHR 0x00] @ ''FIL''
       @ [CHR 0x02, CHR 0x00, CHR 0x00, CHR 0x00, CHR 0x09] @ ''a/b/c.txt'' @ ''hi'' @ ''END''"
  by code_simp

lemma scenario_archive_encoded: "scenario_archive = encode_archive 1 [Entry ''DIR'' 0 ''sub'' []]"
  by code_simp

lemma sample_unpacked:
  "unpack_archive plain_env sample_archive ''dest'' empty_disk
     = (Return 1, sample_disk, sample_events)"
  unfolding sample_bytes
  by (simp add: unpack_archive_def unpack_loop.simps unpack_entry_def dispatch_entry_def
      read_size_def read_byte_def read_filename_def z_read_def size_value_def cstring_def
      create_directory_def is_directory_def mkdir_def parent_present_def slash_node_def
      slash_parent_def plain_env_def empty_disk_def Let_def
      get_directory_def write_file_def write_chunks.simps fopen_wb_def fwrite_def fclose_def
      os_write_def file_size_def block_buffered_def file_path_def sample_disk_def
      sample_events_def)

text \<open>
  C4, as the code has it. For a well-formed archive with \<open>N\<close> entries that
  \<open>unpack_archive\<close> unpacks with success, the sink receives exactly \<open>N + 1\<close> calls of
  \<open>status\<close>: first \<open>(0, entry_count)\<close>, made before the loop, then \<open>(1, entry_count)\<close> up
  to \<open>(N, entry_count)\<close>, one per entry and in this order, where \<open>entry_count\<close> is the
  header's four bytes read little-endian into an \<open>int\<close>.
\<close>

theorem status_calls_of_valid_archive:
  assumes "reader_init E archive = Some (encode_archive entry_count es)"
    and "list_all entry_ok es"
    and "unpack_archive E archive destdir s = (Return 1, s', ev)"
  shows "status_calls ev =
           (0, sint entry_count) # map (\<lambda>i. (int i, sint entry_count)) [1..<Suc (length es)]"
proof -
  from assms(3) obtain z v z1 s1 ev2 where u:
    "reader_init E archive = Some z"
    "create_directory (Some destdir) s = (1, s1, [])"
    "read_size z = (4, v, z1)"
    "unpack_loop E destdir (sint v) z1 0 s1 = (None, s', ev2)"
    "ev = Message Creating_installation_directory
            # [Status 0 (sint v), Message Uncompressing_files] @ ev2
            @ [Message Finishing_Installation]"
    by (rule unpack_archive_success)
  have z: "z = le32 entry_count @ concat (map encode_entry es) @ ''END'' @ []"
    using u(1) assms(1) by (simp add: encode_archive_def)
  have "read_size z = (4, entry_count, concat (map encode_entry es) @ ''END'' @ [])"
    unfolding z by (simp add: le32_def read_size_full size_value_le32)
  then have v: "v = entry_count" "z1 = concat (map encode_entry es) @ ''END'' @ []"
    using u(3) by auto
  have "status_calls ev2 = map (\<lambda>i. (0 + int i, sint entry_count)) [1..<Suc (length es)]"
    using unpack_loop_encoded [OF assms(2), of E destdir "sint entry_count" "[]" 0 s1 s' ev2] u(4) v
    by simp
  then show ?thesis by (simp add: u(5) v status_calls_append)
qed

text \<open>C4, witness: the archive with a directory and a file.\<close>

theorem status_calls_of_valid_archive_witness:
  "reader_init plain_env sample_archive
     = Some (encode_archive 2 [Entry ''DIR'' 0 ''sub'' [], Entry ''FIL'' 5 ''sub/a.txt'' ''hello''])
   \<and> list_all entry_ok [Entry ''DIR'' 0 ''sub'' [], Entry ''FIL'' 5 ''sub/a.txt'' ''hello'']
   \<and> unpack_archive plain_env sample_archive ''dest'' empty_disk
       = (Return 1, sample_disk, sample_events)
   \<and> status_calls sample_events = [(0, 2), (1, 2), (2, 2)]"
proof -
  have 1: "reader_init plain_env sample_archive
     = Some (encode_archive 2 [Entry ''DIR'' 0 ''sub'' [], Entry ''FIL'' 5 ''sub/a.txt'' ''hello''])"
    by (simp add: plain_env_def sample_archive_def)
  have 2: "list_all entry_ok [Entry ''DIR'' 0 ''sub'' [], Entry ''FIL'' 5 ''sub/a.txt'' ''hello'']"
    by (simp add: entry_ok_def)
  note 3 = sample_unpacked
  show ?thesis
    using 1 2 3 status_calls_of_valid_archive [OF 1 2 3] by simp
qed

text \<open>
  C4, counterexample to the claim as stated: the scenario archive has one entry, and the
  sink receives two \<open>status\<close> calls, the first of them with first argument 0.
\<close>

theorem status_calls_counterexample:
  "scenario_archive = encode_archive 1 [Entry ''DIR'' 0 ''sub'' []]
   \<and> status_calls (snd (snd (unpack_archive plain_env scenario_archive ''dest'' empty_disk)))
       = [(0, 1), (1, 1)]"
proof
  show "scenario_archive = encode_archive 1 [Entry ''DIR'' 0 ''sub'' []]" by (rule scenario_archive_encoded)
  show "status_calls (snd (snd (unpack_archive plain_env scenario_archive ''dest'' empty_disk)))
       = [(0, 1), (1, 1)]"
    by (simp add: scenario_archive_def unpack_archive_def unpack_loop.simps unpack_entry_def
        dispatch_entry_def read_size_def read_byte_def read_filename_def z_read_def
        size_value_def cstring_def create_directory_def is_directory_def mkdir_def
        parent_present_def slash_node_def slash_parent_def plain_env_def empty_disk_def Let_def)
qed

section \<open>Unpacking a second time\<close>

lemma node_kind_simps [simp]:
  "node_kind None = 0" "node_kind (Some Dir) = 1" "node_kind (Some (File c)) = 2"
  by (simp_all add: node_kind_def)

lemma node_kind_Dir: "(node_kind n = Suc 0) = (n = Some Dir)"
  by (auto simp: node_kind_def split: option.splits node.splits)

lemma node_kind_None: "(node_kind n = 0) = (n = None)"
  by (auto simp: node_kind_def split: option.splits node.splits)

lemma same_os_refl: "same_os s s"
  by (simp add: same_os_def)

lemma same_os_trans: "same_os s t \<Longrightarrow> same_os t u \<Longrightarrow> same_os s u"
  by (simp add: same_os_def)

lemma same_os_sym: "same_os s t \<Longrightarrow> same_os t s"
  by (simp add: same_os_def)

lemma grows_refl: "grows s s"
  by (simp add: grows_def same_os_def)

lemma grows_trans:
  assumes "grows s s1" and "grows s1 s2"
  shows "grows s s2"
proof -
  have "same_os s s2" using assms by (auto simp: grows_def intro: same_os_trans)
  moreover have "node_kind (files s2 p) = node_kind (files s p)" if "files s p \<noteq> None" for p
  proof -
    have 1: "node_kind (files s1 p) = node_kind (files s p)" using assms(1) that by (simp add: grows_def)
    then have "files s1 p \<noteq> None" using that by (metis node_kind_None)
    then show ?thesis using assms(2) 1 by (simp add: grows_def)
  qed
  ultimately show ?thesis by (simp add: grows_def)
qed

lemma create_directory_success:
  assumes "create_directory path s = (r, s1, e)" and "r \<noteq> 0"
  shows "r = 1 \<and> e = [] \<and> opened s1 = opened s \<and> same_os s s1
         \<and> (path = None \<or> (\<exists>p. path = Some p
                \<and> (nothing_to_do p \<or> is_directory s1 (skip_dot_slash p))))
         \<and> (\<forall>q. files s1 q = files s q \<or> files s q = None \<and> files s1 q = Some Dir)"
  using assms
  by (auto simp: create_directory_def is_directory_def mkdir_def same_os_def Let_def
      split: option.splits if_splits)

lemma create_directory_present:
  assumes "path = None \<or> (\<exists>p. path = Some p
                \<and> (nothing_to_do p \<or> is_directory t (skip_dot_slash p)))"
  shows "create_directory path t = (1, t, [])"
  using assms by (auto simp: create_directory_def)

lemma create_directory_grows:
  "create_directory path s = (r, s1, e) \<Longrightarrow> grows s s1"
  using create_directory_cases [of path s] by (auto simp: grows_def same_os_def)

lemma write_file_grows:
  "write_file filename z len s = (r, z', s', ev) \<Longrightarrow> grows s s'"
proof (cases "fopen_wb s (file_path filename) = None")
  case True
  then show "write_file filename z len s = (r, z', s', ev) \<Longrightarrow> grows s s'"
    by (simp add: write_file_no_file grows_refl)
next
  case False
  then obtain k where ok: "node_of s (file_path filename) = Some k" "files s k \<noteq> Some Dir"
      "parent_present s (file_path filename)"
    using fopen_wb_cases [of s "file_path filename"] by auto
  assume a: "write_file filename z len s = (r, z', s', ev)"
  have "\<exists>c ops. s' = s\<lparr>files := (files s)(k \<mapsto> File c), opened := ops\<rparr>"
  proof (cases "int (length z) < len")
    case True
    then show ?thesis using write_file_short [OF ok True] a by auto
  next
    case False
    then have "s' = s\<lparr>files := (files s)(k \<mapsto> File (take (nat len) z)),
        opened := opened s\<rparr>"
      using write_file_complete [OF ok, where z = z and len = len] a by simp
    then show ?thesis by blast
  qed
  then show "grows s s'" using ok(2)
    by (auto simp: grows_def same_os_def node_kind_def split: option.splits node.splits if_splits)
qed

lemma dispatch_entry_grows:
  assumes "dispatch_entry E destdir num ident name z len pos s = (r, z2, s2, ev)"
  shows "grows s s2"
  using assms
  by (auto simp: dispatch_entry_def Let_def grows_refl
      split: prod.splits option.splits if_splits
      dest!: create_directory_grows write_file_grows intro: grows_trans)

lemma unpack_entry_grows:
  assumes "unpack_entry E destdir num ident z pos s = (r, z2, s2, ev)"
  shows "grows s s2"
  using assms
  by (auto simp: unpack_entry_def grows_refl split: prod.splits if_splits
      dest: dispatch_entry_grows)

lemma unpack_loop_grows:
  "unpack_loop E destdir num z pos s = (r, s', ev) \<Longrightarrow> grows s s'"
proof (induction "length z" arbitrary: z pos s r s' ev rule: less_induct)
  case less
  show ?case
  proof (cases rule: unpack_loop_cases [of z E destdir num pos s])
    case short
    then show ?thesis using less.prems by (simp add: grows_refl)
  next
    case finished
    then show ?thesis using less.prems by (simp add: grows_refl)
  next
    case (left r z2 s2 ev)
    then show ?thesis using less.prems unpack_entry_grows by auto
  next
    case (continued z2 s2 ev2 r3 s3 ev3)
    have "grows s s2" using continued(3) by (rule unpack_entry_grows)
    moreover have "grows s2 s3" using less.hyps [OF continued(4,5)] .
    ultimately show ?thesis using less.prems continued(6) by (auto intro: grows_trans)
  qed
qed

lemma dir_in_both:
  assumes "files s1 q = Some Dir" and "grows s1 s'" and "agree t s'"
  shows "files t q = Some Dir"
proof -
  have "node_kind (files s' q) = 1" using assms(1,2) by (simp add: grows_def)
  then have "node_kind (files t q) = Suc 0" using assms(3) by (simp add: agree_def)
  then show ?thesis by (simp add: node_kind_Dir)
qed

lemma same_os_both:
  assumes "grows s1 s'" and "agree t s'"
  shows "node_of t = node_of s1" and "parent_of t = parent_of s1"
  using assms by (auto simp: grows_def agree_def same_os_def)

lemma is_directory_in_both:
  assumes "is_directory s1 path" and "grows s1 s'" and "agree t s'"
  shows "is_directory t path"
proof -
  obtain k where k: "node_of s1 path = Some k" "files s1 k = Some Dir"
    using assms(1) by (auto simp: is_directory_def split: option.splits)
  have "files t k = Some Dir" using dir_in_both [OF k(2) assms(2,3)] .
  then show ?thesis using k(1) same_os_both(1) [OF assms(2,3)] by (simp add: is_directory_def)
qed

lemma parent_present_in_both:
  assumes "parent_present s1 path" and "grows s1 s'" and "agree t s'"
  shows "parent_present t path"
proof (cases "parent_of s1 path")
  case None
  then show ?thesis using same_os_both(2) [OF assms(2,3)] by (simp add: parent_present_def)
next
  case (Some d)
  then have "files s1 d = Some Dir" using assms(1) by (simp add: parent_present_def)
  then have "files t d = Some Dir" using dir_in_both assms(2,3) by blast
  then show ?thesis using Some same_os_both(2) [OF assms(2,3)] by (simp add: parent_present_def)
qed

lemma file_in_both:
  assumes "files s2 q = Some (File c)" and "grows s2 s'" and "agree t s'"
  shows "files t q \<noteq> Some Dir"
proof -
  have "node_kind (files s' q) = 2" using assms(1,2) by (simp add: grows_def)
  then have "node_kind (files t q) = 2" using assms(3) by (simp add: agree_def)
  then show ?thesis by auto
qed

lemma create_directory_replay:
  assumes "create_directory path s = (r, s1, e)" and "r \<noteq> 0"
    and "grows s1 s'" and "agree t s'"
  shows "create_directory path t = (1, t, []) \<and> replays s s1 t t"
proof -
  note suc = create_directory_success [OF assms(1,2)]
  have "path = None \<or> (\<exists>p. path = Some p
                \<and> (nothing_to_do p \<or> is_directory t (skip_dot_slash p)))"
    using suc is_directory_in_both [OF _ assms(3,4)] by blast
  then have 1: "create_directory path t = (1, t, [])" by (rule create_directory_present)
  have "files t q = files s1 q \<or> files t q = files t q \<and> files s1 q = files s q" for q
    using suc dir_in_both [OF _ assms(3,4), of q] by metis
  then show ?thesis using 1 by (simp add: replays_def same_os_refl)
qed

lemma write_file_replay:
  assumes "write_file filename z len s1 = (r, z3, s2, e)" and "r \<noteq> 0"
    and "grows s2 s'" and "agree t s'" and "replays s s1 t t"
  shows "\<exists>t2. write_file filename z len t = (1, z3, t2, e) \<and> agree t2 s' \<and> replays s s2 t t2"
proof -
  let ?fp = "file_path filename"
  let ?c = "take (nat len) z"
  from write_file_success [OF assms(1,2)] obtain k where suc:
    "len \<le> int (length z)" "node_of s1 ?fp = Some k" "files s1 k \<noteq> Some Dir"
    "parent_present s1 ?fp" "r = 1" "z3 = drop (nat len) z"
    "s2 = s1\<lparr>files := (files s1)(k \<mapsto> File ?c)\<rparr>" "e = [New_file ?fp]"
    by blast
  have g1: "grows s1 s'" using write_file_grows [OF assms(1)] assms(3) grows_trans by blast
  have "files s2 k = Some (File ?c)" using suc(7) by simp
  then have tk: "files t k \<noteq> Some Dir" using file_in_both assms(3,4) by blast
  have tn: "node_of t ?fp = Some k" using suc(2) same_os_both(1) [OF g1 assms(4)] by simp
  have tp: "parent_present t ?fp" using parent_present_in_both [OF suc(4) g1 assms(4)] .
  let ?t2 = "t\<lparr>files := (files t)(k \<mapsto> File ?c)\<rparr>"
  have 1: "write_file filename z len t = (1, z3, ?t2, e)"
    using write_file_complete [OF tn tk tp suc(1)] suc(6,8) by simp
  have "node_kind (files t k) = 2"
    using \<open>files s2 k = Some (File ?c)\<close> assms(3,4) by (simp add: grows_def agree_def)
  then have 2: "agree ?t2 s'" using assms(4) by (auto simp: agree_def same_os_def)
  have 3: "replays s s2 t ?t2" using assms(5) by (auto simp: replays_def same_os_def suc(7))
  from 1 2 3 show ?thesis by blast
qed

lemma dispatch_entry_replay:
  assumes "dispatch_entry E destdir num ident name z len pos s = (None, z2, s2, ev)"
    and "grows s2 s'" and "agree t s'"
  shows "\<exists>t2. dispatch_entry E destdir num ident name z len pos t = (None, z2, t2, ev)
           \<and> agree t2 s' \<and> replays s s2 t t2"
proof (cases "cstring ident = ''DIR''")
  case True
  let ?f = "concatPaths E destdir (skip_dot_slash name)"
  obtain r s1 e1 where cd: "create_directory (Some ?f) s = (r, s1, e1)"
    by (cases "create_directory (Some ?f) s") auto
  have r: "r \<noteq> 0" and eq: "s2 = s1" "z2 = z"
      "ev = [Status (pos + 1) num, Message (Entry_line (cstring ident) ?f len)] @ New_directory ?f # e1"
    using assms(1) True cd by (auto simp: dispatch_entry_def Let_def split: if_splits)
  have e1: "e1 = []" using create_directory_success [OF cd r] by simp
  have "create_directory (Some ?f) t = (1, t, []) \<and> replays s s1 t t"
    using create_directory_replay [OF cd r _ assms(3)] assms(2) eq by simp
  then show ?thesis using True eq e1 assms(3) by (auto simp: dispatch_entry_def Let_def)
next
  case False
  let ?f = "concatPaths E destdir (skip_dot_slash name)"
  obtain dir where gd: "get_directory ?f = Some dir"
    using assms(1) False by (cases "get_directory ?f") (auto simp: dispatch_entry_def Let_def)
  obtain r s1 e1 where cd: "create_directory (Some dir) s = (r, s1, e1)"
    by (cases "create_directory (Some dir) s") auto
  have r: "r \<noteq> 0" using assms(1) False gd cd
    by (auto simp: dispatch_entry_def Let_def split: if_splits)
  obtain r2 z3 s3 e2 where wf: "write_file ?f z len s1 = (r2, z3, s3, e2)"
    by (cases "write_file ?f z len s1") auto
  have r2: "r2 \<noteq> 0" and eq: "s2 = s3" "z2 = z3"
      "ev = [Status (pos + 1) num, Message (Entry_line (cstring ident) ?f len)] @ e1 @ e2"
    using assms(1) False gd cd r wf by (auto simp: dispatch_entry_def Let_def split: if_splits)
  have e1: "e1 = []" using create_directory_success [OF cd r] by simp
  have g1: "grows s1 s'" using write_file_grows [OF wf] assms(2) eq grows_trans by blast
  have cdt: "create_directory (Some dir) t = (1, t, [])" and rp: "replays s s1 t t"
    using create_directory_replay [OF cd r g1 assms(3)] by simp_all
  obtain t2 where wt: "write_file ?f z len t = (1, z3, t2, e2)" "agree t2 s'" "replays s s3 t t2"
    using write_file_replay [OF wf r2 _ assms(3) rp] assms(2) eq by auto
  show ?thesis using False gd cdt wt eq e1 by (auto simp: dispatch_entry_def Let_def)
qed

lemma unpack_entry_replay:
  assumes "unpack_entry E destdir num ident z pos s = (None, z2, s2, ev)"
    and "grows s2 s'" and "agree t s'"
  shows "\<exists>t2. unpack_entry E destdir num ident z pos t = (None, z2, t2, ev)
           \<and> agree t2 s' \<and> replays s s2 t t2"
proof -
  obtain l v z1 where A: "read_size z = (l, v, z1)" by (cases "read_size z") auto
  obtain name zb where B: "read_filename E z1 = (name, zb)" by (cases "read_filename E z1") auto
  have l: "\<not> l < 4" using assms(1) A by (auto simp: unpack_entry_def split: if_splits)
  then have "dispatch_entry E destdir num ident name zb (sint v) pos s = (None, z2, s2, ev)"
    using assms(1) A B by (simp add: unpack_entry_def)
  from dispatch_entry_replay [OF this assms(2,3)] show ?thesis
    using A B l by (simp add: unpack_entry_def)
qed

lemma replays_trans:
  assumes "replays s s2 t t2" and "replays s2 s' t2 t'"
  shows "replays s s' t t'"
proof -
  have "same_os t t'" using assms by (auto simp: replays_def intro: same_os_trans)
  moreover have "opened t' = opened t" using assms by (simp add: replays_def)
  moreover have "\<forall>p. files t' p = files s' p \<or> files t' p = files t p \<and> files s' p = files s p"
    using assms unfolding replays_def by metis
  ultimately show ?thesis by (simp add: replays_def)
qed

lemma unpack_loop_finished:
  assumes "take 3 z = ''END''"
  shows "unpack_loop E destdir num z pos s = (None, s, [])"
proof -
  have "z = take 3 z @ drop 3 z" by simp
  then have "z = CHR ''E'' # CHR ''N'' # CHR ''D'' # drop 3 z"
    using assms by (metis append_Cons append_Nil)
  then show ?thesis using unpack_loop_END [of E destdir num "drop 3 z" pos s] by simp
qed

lemma unpack_loop_unfold:
  assumes "3 \<le> length z" and "take 3 z \<noteq> ''END''"
  shows "unpack_loop E destdir num z pos s =
     (case unpack_entry E destdir num (take 3 z) (drop 3 z) pos s of
        (Some r, z2, s2, ev) \<Rightarrow> (Some r, s2, ev)
      | (None, z2, s2, ev) \<Rightarrow>
          (case unpack_loop E destdir num z2 (pos + 1) s2 of
             (r, s3, ev3) \<Rightarrow> (r, s3, ev @ ev3)))"
proof -
  have "length (take 3 z) = 3" using assms(1) by simp
  from unpack_loop_entry [OF this assms(2), of E destdir num "drop 3 z" pos s]
  show ?thesis by simp
qed

lemma unpack_loop_replay:
  assumes "unpack_loop E destdir num z pos s = (None, s', ev)" and "agree t s'"
  shows "\<exists>t'. unpack_loop E destdir num z pos t = (None, t', ev) \<and> replays s s' t t'"
  using assms
proof (induction "length z" arbitrary: z pos s t ev rule: less_induct)
  case less
  show ?case
  proof (cases rule: unpack_loop_cases [of z E destdir num pos s])
    case short
    then show ?thesis using less.prems by simp
  next
    case finished
    then have "s' = s" "ev = []" using less.prems by simp_all
    moreover have "unpack_loop E destdir num z pos t = (None, t, [])"
      using finished(1) by (rule unpack_loop_finished)
    ultimately show ?thesis by (auto simp: replays_def same_os_refl)
  next
    case (left r z2 s2 ev)
    then show ?thesis using less.prems by simp
  next
    case (continued z2 s2 ev1 r3 s3 ev3)
    have res: "r3 = None" "s3 = s'" "ev = ev1 @ ev3"
      using continued(6) less.prems(1) by simp_all
    have "grows s2 s'" using continued(5) res unpack_loop_grows by blast
    from unpack_entry_replay [OF continued(3) this less.prems(2)]
    obtain t2 where t2:
      "unpack_entry E destdir num (take 3 z) (drop 3 z) pos t = (None, z2, t2, ev1)"
      "agree t2 s'" "replays s s2 t t2"
      by blast
    from less.hyps [OF continued(4) _ t2(2), of "pos + 1" s2 ev3] continued(5) res
    obtain t' where t': "unpack_loop E destdir num z2 (pos + 1) t2 = (None, t', ev3)"
      "replays s2 s' t2 t'"
      by auto
    have "unpack_loop E destdir num z pos t = (None, t', ev)"
      using unpack_loop_unfold [OF continued(1,2), of E destdir num pos t] t2(1) t'(1) res
      by simp
    then show ?thesis using replays_trans [OF t2(3) t'(2)] by blast
  qed
qed

text \<open>
  C8, as the code has it. If unpacking an archive into a destination succeeds and leaves
  the disk \<open>s'\<close>, then unpacking the same archive into the same destination on \<open>s'\<close>
  succeeds again and leaves \<open>s'\<close> as it is: the directories are found and accepted, every
  file is opened again, emptied and written with the same bytes, so each file holds after
  the second run what it held after the first. The sink receives the same calls.
\<close>

theorem unpack_archive_twice:
  assumes "unpack_archive E archive destdir s = (Return 1, s', ev)"
  shows "unpack_archive E archive destdir s' = (Return 1, s', ev)"
proof -
  from assms obtain z v z1 s1 ev2 where u:
    "reader_init E archive = Some z"
    "create_directory (Some destdir) s = (1, s1, [])"
    "read_size z = (4, v, z1)"
    "unpack_loop E destdir (sint v) z1 0 s1 = (None, s', ev2)"
    "ev = Message Creating_installation_directory
            # [Status 0 (sint v), Message Uncompressing_files] @ ev2
            @ [Message Finishing_Installation]"
    by (rule unpack_archive_success)
  have same: "agree s' s'" by (simp add: agree_def same_os_refl)
  have "grows s1 s'" using u(4) by (rule unpack_loop_grows)
  from create_directory_replay [OF u(2) _ this same]
  have cd: "create_directory (Some destdir) s' = (1, s', [])" by simp
  from unpack_loop_replay [OF u(4) same]
  obtain t' where t': "unpack_loop E destdir (sint v) z1 0 s' = (None, t', ev2)"
    "replays s1 s' s' t'"
    by blast
  have "files t' = files s'" "opened t' = opened s'" "node_of t' = node_of s'"
    "parent_of t' = parent_of s'" "through t' = through s'"
    using t'(2) by (auto simp: replays_def same_os_def)
  then have "t' = s'" by simp
  then show ?thesis using u(1,3,5) cd t'(1) by (simp add: unpack_archive_def)
qed

text \<open>
  C8, witness: the archive with a directory and the file of content \<open>hello\<close>, unpacked
  on the empty disk and again on the result.
\<close>

theorem unpack_archive_twice_witness:
  "unpack_archive plain_env sample_archive ''dest'' empty_disk
     = (Return 1, sample_disk, sample_events)
   \<and> unpack_archive plain_env sample_archive ''dest'' sample_disk
     = (Return 1, sample_disk, sample_events)
   \<and> files sample_disk (''dest'' @ [CHR 0x5C] @ ''sub'' @ [CHR 0x5C] @ ''a.txt'')
     = Some (File ''hello'')"
  using sample_unpacked unpack_archive_twice [OF sample_unpacked]
  by (simp add: sample_disk_def)

text \<open>
  C8, counterexample to the claim as stated. A well-formed archive need not be unpacked
  with success the first time: \<open>create_directory\<close> makes one directory, the one that is
  to hold the file, and for the entry \<open>a/b/c.txt\<close> with no entry for \<open>a\<close> before it
  \<open>mkdir\<close> of \<open>dest/a/b\<close> fails.
\<close>

theorem nested_file_counterexample:
  "list_all entry_ok [Entry ''FIL'' 2 ''a/b/c.txt'' ''hi'']
   \<and> unpack_archive plain_env (encode_archive 1 [Entry ''FIL'' 2 ''a/b/c.txt'' ''hi''])
        ''dest'' empty_disk
     = (Return 0, empty_disk\<lparr>files := [''dest'' \<mapsto> Dir]\<rparr>,
        [Message Creating_installation_directory, Status 0 1, Message Uncompressing_files,
         Status 1 1, Message (Entry_line ''FIL'' ''dest/a/b/c.txt'' 2),
         Error (Create_directory_FAILED ''dest/a/b'')])"
proof
  show "list_all entry_ok [Entry ''FIL'' 2 ''a/b/c.txt'' ''hi'']"
    by (simp add: entry_ok_def)
  show "unpack_archive plain_env (encode_archive 1 [Entry ''FIL'' 2 ''a/b/c.txt'' ''hi''])
        ''dest'' empty_disk
     = (Return 0, empty_disk\<lparr>files := [''dest'' \<mapsto> Dir]\<rparr>,
        [Message Creating_installation_directory, Status 0 1, Message Uncompressing_files,
         Status 1 1, Message (Entry_line ''FIL'' ''dest/a/b/c.txt'' 2),
         Error (Create_directory_FAILED ''dest/a/b'')])"
    unfolding nested_bytes
    by (simp add: unpack_archive_def unpack_loop.simps unpack_entry_def dispatch_entry_def
        read_size_def read_byte_def read_filename_def z_read_def size_value_def cstring_def
        create_directory_def is_directory_def mkdir_def parent_present_def slash_node_def
        slash_parent_def plain_env_def empty_disk_def Let_def get_directory_def)
qed

section \<open>Error reports, and archives that end early\<close>

text \<open>
  Every path that reports an error leaves the function right after, so the sink receives
  at most one \<open>error\<close> call in a run, and none in a run that returns 1.
\<close>

lemma error_calls_append: "error_calls (xs @ ys) = error_calls xs + error_calls ys"
  by (induction xs rule: error_calls.induct) auto

lemma error_calls_create_directory:
  "create_directory path s = (r, s1, e) \<Longrightarrow> error_calls e = (if r = 0 then 1 else 0)"
  using create_directory_cases [of path s] by auto

lemma error_calls_write_file:
  assumes "write_file filename z len s = (r, z', s', ev)"
  shows "error_calls ev = (if r = 0 then 1 else 0)"
proof (cases "fopen_wb s (file_path filename) = None")
  case True
  then show ?thesis using assms by (auto simp: write_file_no_file)
next
  case False
  then obtain k where ok: "node_of s (file_path filename) = Some k" "files s k \<noteq> Some Dir"
      "parent_present s (file_path filename)"
    using fopen_wb_cases [of s "file_path filename"] by auto
  show ?thesis
    using write_file_short [OF ok, where z = z and len = len]
      write_file_complete [OF ok, where z = z and len = len] assms
    by (cases "int (length z) < len") auto
qed

lemma error_calls_dispatch_entry:
  assumes "dispatch_entry E destdir num ident name z len pos s = (r, z2, s2, ev)"
  shows "error_calls ev = (if r = Some (Return 0) then 1 else 0)"
  using assms
  by (auto simp: dispatch_entry_def Let_def error_calls_append
      split: prod.splits option.splits if_splits
      dest!: error_calls_create_directory error_calls_write_file)

lemma error_calls_unpack_entry:
  assumes "unpack_entry E destdir num ident z pos s = (r, z2, s2, ev)"
  shows "error_calls ev \<le> (if r = None then 0 else 1)"
  using assms
  by (auto simp: unpack_entry_def split: prod.splits if_splits
      dest!: error_calls_dispatch_entry)

lemma error_calls_unpack_loop:
  "unpack_loop E destdir num z pos s = (r, s', ev) \<Longrightarrow>
   error_calls ev \<le> (if r = None then 0 else 1)"
proof (induction "length z" arbitrary: z pos s r s' ev rule: less_induct)
  case less
  show ?case
  proof (cases rule: unpack_loop_cases [of z E destdir num pos s])
    case short
    then show ?thesis using less.prems by auto
  next
    case finished
    then show ?thesis using less.prems by auto
  next
    case (left r z2 s2 ev)
    then show ?thesis using less.prems error_calls_unpack_entry [OF left(3)] by auto
  next
    case (continued z2 s2 ev2 r3 s3 ev3)
    have "error_calls ev2 = 0" using error_calls_unpack_entry [OF continued(3)] by simp
    moreover have "error_calls ev3 \<le> (if r3 = None then 0 else 1)"
      using less.hyps [OF continued(4,5)] .
    ultimately show ?thesis using less.prems continued(6) by (auto simp: error_calls_append)
  qed
qed

lemma error_at_most_once:
  "error_calls (snd (snd (unpack_archive E archive destdir s)))
     \<le> (if fst (unpack_archive E archive destdir s) = Return 1 then 0 else 1)"
proof (cases "reader_init E archive")
  case None
  then show ?thesis by (simp add: unpack_archive_def)
next
  case (Some z)
  obtain r s1 e1 where cd: "create_directory (Some destdir) s = (r, s1, e1)"
    by (cases "create_directory (Some destdir) s") auto
  note e1 = error_calls_create_directory [OF cd]
  obtain l v z1 where rs: "read_size z = (l, v, z1)" by (cases "read_size z") auto
  obtain r2 s2 ev2 where loop: "unpack_loop E destdir (sint v) z1 0 s1 = (r2, s2, ev2)"
    by (cases "unpack_loop E destdir (sint v) z1 0 s1") auto
  note e2 = error_calls_unpack_loop [OF loop]
  show ?thesis
  proof (cases "r = 0 \<or> l < 4")
    case True
    then show ?thesis using Some cd rs e1 by (auto simp: unpack_archive_def Let_def)
  next
    case False
    then show ?thesis
      using Some cd rs loop e1 e2
      by (cases r2) (auto simp: unpack_archive_def Let_def error_calls_append
          dest: unpack_loop_left)
  qed
qed

text \<open>
  A well-formed archive cut short at any point is never unpacked with success: the run
  ends with \<open>return 0\<close> at the read that comes up short, at the next tag when the cut
  lies inside a name, or in the materializer.
\<close>

lemma length_le32: "length (le32 w) = 4"
  by (simp add: le32_def)

lemma read_size_le32: "read_size (le32 w @ z) = (4, w, z)"
  by (simp add: le32_def read_size_full size_value_le32)

lemma dispatch_entry_exhausted:
  "fst (snd (dispatch_entry E destdir num ident name [] len pos s)) = []"
  using dispatch_entry_stream [of E destdir num ident name "[]" len pos s] by simp

lemma dispatch_entry_short_payload:
  assumes "cstring ident \<noteq> ''DIR''" and "int (length z) < len"
  shows "fst (dispatch_entry E destdir num ident name z len pos s) \<noteq> None"
proof -
  have "r2 = 0" if "write_file f z len s1 = (r2, z3, s2, e2)" for f s1 r2 z3 s2 e2
    using write_file_cases [where z = z and len = len and s = s1 and filename = f] that assms(2) by auto
  then show ?thesis
    using assms(1)
    by (auto simp: dispatch_entry_def Let_def split: prod.splits option.splits)
qed

lemma unpack_entry_cut:
  assumes "entry_ok e"
    and "j < length (le32 (size_field e) @ char_of (length (name_bytes e)) # name_bytes e @ payload e)"
  shows "fst (unpack_entry E destdir num (tag e)
            (take j (le32 (size_field e) @ char_of (length (name_bytes e)) # name_bytes e @ payload e))
            pos s) \<noteq> None
         \<or> fst (snd (unpack_entry E destdir num (tag e)
            (take j (le32 (size_field e) @ char_of (length (name_bytes e)) # name_bytes e @ payload e))
            pos s)) = []"
proof -
  let ?nl = "char_of (length (name_bytes e)) :: char"
  let ?name = "name_bytes e"
  let ?body = "le32 (size_field e) @ ?nl # ?name @ payload e"
  have n: "length ?name < 256" and t: "length (tag e) = 3" using assms(1) by (auto simp: entry_ok_def)
  have nl: "(of_char ?nl :: nat) = length ?name" using n by simp
  show ?thesis
  proof (cases "j < 4")
    case True
    then have "length (take j ?body) < 4" by simp
    from read_size_short [OF this]
    have "fst (read_size (take j ?body)) < 4" using True by simp
    then show ?thesis by (auto simp: unpack_entry_def split: prod.splits)
  next
    case False
    then have tk: "take j ?body = le32 (size_field e) @ take (j - 4) (?nl # ?name @ payload e)"
      by (simp add: length_le32)
    show ?thesis
    proof (cases "j - 4 < 1 + length ?name")
      case True
      have rf: "snd (read_filename E (take (j - 4) (?nl # ?name @ payload e))) = []"
      proof (cases "j - 4")
        case 0
        then show ?thesis by (simp add: read_filename_def z_read_def Let_def)
      next
        case (Suc m)
        then have m: "m < length ?name" using True by simp
        then have "take (j - 4) (?nl # ?name @ payload e) = ?nl # take m ?name"
          using Suc by simp
        moreover have "length (take m ?name) < of_char ?nl" using m nl by simp
        ultimately show ?thesis
          using read_filename_truncated [of "?nl # take m ?name" ?nl E "take m ?name"] by simp
      qed
      obtain name z2 where B: "read_filename E (take (j - 4) (?nl # ?name @ payload e)) = (name, z2)"
        by (cases "read_filename E (take (j - 4) (?nl # ?name @ payload e))") auto
      then have "z2 = []" using rf by simp
      then show ?thesis
        unfolding tk
        using B dispatch_entry_exhausted [of E destdir num "tag e" name "sint (size_field e)" pos s]
        by (simp add: unpack_entry_def read_size_le32)
    next
      case whole: False
      let ?j' = "j - (5 + length ?name)"
      have j': "?j' < length (payload e)" using assms(2) False whole by (simp add: length_le32)
      have "j - 4 = Suc (length ?name + ?j')" using whole by simp
      then have tk2: "take (j - 4) (?nl # ?name @ payload e) = ?nl # ?name @ take ?j' (payload e)"
        by simp
      have rf: "read_filename E (?nl # ?name @ take ?j' (payload e))
                  = (cstring ?name, take ?j' (payload e))"
        by (rule read_filename_full) (simp only: nl)
      have nd: "tag e \<noteq> ''DIR''" using j' assms(1) by (auto simp: entry_ok_def)
      then have nd': "cstring (tag e) \<noteq> ''DIR''" using t by (simp add: cstring_DIR)
      have "int (length (take ?j' (payload e))) < sint (size_field e)"
        using j' nd assms(1) by (auto simp: entry_ok_def)
      from dispatch_entry_short_payload [OF nd' this]
      show ?thesis unfolding tk tk2 by (simp add: unpack_entry_def read_size_le32 rf)
    qed
  qed
qed

lemma unpack_loop_cut:
  assumes "list_all entry_ok es" and "k < length (concat (map encode_entry es) @ ''END'')"
  shows "fst (unpack_loop E destdir num (take k (concat (map encode_entry es) @ ''END'')) pos s)
           \<noteq> None"
  using assms
proof (induction es arbitrary: k pos s)
  case Nil
  then have "length (take k ''END'') < 3" by simp
  then show ?case using unpack_loop_short [of "take k ''END''" E destdir num pos s] by simp
next
  case (Cons e es)
  let ?rest = "concat (map encode_entry es) @ ''END''"
  let ?body = "le32 (size_field e) @ char_of (length (name_bytes e)) # name_bytes e @ payload e"
  have ok: "entry_ok e" and oks: "list_all entry_ok es" using Cons.prems(1) by simp_all
  have t: "length (tag e) = 3" "tag e \<noteq> ''END''" using ok by (auto simp: entry_ok_def)
  have enc: "encode_entry e = tag e @ ?body" by (simp add: encode_entry_def)
  show ?case
  proof (cases "k < 3")
    case True
    then have "length (take k (concat (map encode_entry (e # es)) @ ''END'')) < 3" by simp
    then show ?thesis using unpack_loop_short by simp
  next
    case k3: False
    show ?thesis
    proof (cases "k < length (encode_entry e)")
      case True
      then have j: "k - 3 < length ?body" using k3 t by (simp add: enc)
      have "take k (concat (map encode_entry (e # es)) @ ''END'') = take k (encode_entry e)"
        using True by simp
      also have "\<dots> = tag e @ take (k - 3) ?body"
        using k3 t by (simp add: enc)
      finally have tk:
        "take k (concat (map encode_entry (e # es)) @ ''END'') = tag e @ take (k - 3) ?body" .
      obtain r z2 s2 ev where ue:
        "unpack_entry E destdir num (tag e) (take (k - 3) ?body) pos s = (r, z2, s2, ev)"
        by (cases "unpack_entry E destdir num (tag e) (take (k - 3) ?body) pos s") auto
      have cut: "r \<noteq> None \<or> z2 = []" using unpack_entry_cut [OF ok j, of E destdir num pos s] ue by simp
      show ?thesis
      proof (cases r)
        case None
        then have "z2 = []" using cut by simp
        then have "unpack_loop E destdir num z2 (pos + 1) s2
                     = (Some (Return 0), s2, [Error Unexpected_end_of_archive])"
          by (simp add: unpack_loop_short)
        then show ?thesis
          unfolding tk
          using unpack_loop_entry [OF t, of E destdir num "take (k - 3) ?body" pos s] ue None
          by simp
      next
        case (Some res)
        then show ?thesis
          unfolding tk
          using unpack_loop_entry [OF t, of E destdir num "take (k - 3) ?body" pos s] ue
          by simp
      qed
    next
      case False
      let ?k' = "k - length (encode_entry e)"
      have k': "?k' < length ?rest" using Cons.prems(2) False by simp
      have tk: "take k (concat (map encode_entry (e # es)) @ ''END'')
                  = encode_entry e @ take ?k' ?rest"
        using False by simp
      obtain r z2 s2 ev where d:
        "dispatch_entry E destdir num (tag e) (cstring (name_bytes e)) (payload e @ take ?k' ?rest)
           (sint (size_field e)) pos s = (r, z2, s2, ev)"
        by (cases "dispatch_entry E destdir num (tag e) (cstring (name_bytes e))
              (payload e @ take ?k' ?rest) (sint (size_field e)) pos s") auto
      show ?thesis
      proof (cases r)
        case None
        have "z2 = take ?k' ?rest"
          using dispatch_entry_continues [OF d [unfolded None]] ok t
          by (auto simp: entry_ok_def cstring_DIR split: if_splits)
        then have "fst (unpack_loop E destdir num z2 (pos + 1) s2) \<noteq> None"
          using Cons.IH [OF oks k', of "pos + 1" s2] by simp
        then show ?thesis
          unfolding tk
          using unpack_entry_encoded [OF ok, of E destdir num "take ?k' ?rest" pos s] d None
          by (auto split: prod.splits)
      next
        case (Some res)
        then show ?thesis
          unfolding tk
          using unpack_entry_encoded [OF ok, of E destdir num "take ?k' ?rest" pos s] d
          by simp
      qed
    qed
  qed
qed

lemma truncated_archive_fails:
  assumes "reader_init E archive = Some (take k (encode_archive entry_count es))"
    and "list_all entry_ok es" and "k < length (encode_archive entry_count es)"
  shows "fst (unpack_archive E archive destdir s) \<noteq> Return 1"
proof
  assume "fst (unpack_archive E archive destdir s) = Return 1"
  then obtain s' ev where "unpack_archive E archive destdir s = (Return 1, s', ev)"
    by (cases "unpack_archive E archive destdir s") auto
  then obtain z v z1 s1 ev2 where u:
    "reader_init E archive = Some z"
    "read_size z = (4, v, z1)"
    "unpack_loop E destdir (sint v) z1 0 s1 = (None, s', ev2)"
    by (rule unpack_archive_success)
  have z: "z = take k (le32 entry_count @ concat (map encode_entry es) @ ''END'')"
    using u(1) assms(1) by (simp add: encode_archive_def)
  show False
  proof (cases "k < 4")
    case True
    then have "length z < 4" using z by simp
    then show False using read_size_short [of z] u(2) by simp
  next
    case False
    then have "z = le32 entry_count @ take (k - 4) (concat (map encode_entry es) @ ''END'')"
      using z by (simp add: length_le32)
    then have "z1 = take (k - 4) (concat (map encode_entry es) @ ''END'')"
      using u(2) by (simp add: read_size_le32)
    moreover have "k - 4 < length (concat (map encode_entry es) @ ''END'')"
      using assms(3) False by (simp add: encode_archive_def length_le32)
    ultimately show False
      using unpack_loop_cut [OF assms(2), of "k - 4" E destdir "sint v" 0 s1] u(3) by simp
  qed
qed

end
